theory Spec2Isabelle
  imports Complex_Main
begin

section \<open>Data model of the fraud-network widget (src/d3\_graph.tsx)\<close>

text \<open>
  A JavaScript \<open>number\<close> is a binary64 double: a finite value (every finite double denotes a
  real; the two zeros are not told apart), or one of the three special values.
\<close>

datatype number = Num real | NaN | Infinity | NegInfinity

text \<open>The host's claim record: \<open>claim.primaryKey\<close> and \<open>claim.properties.*\<close>.
  \<open>primaryKey\<close> and \<open>policyholderId\<close> are strings: both are stored into the
  node field \<open>primaryKey: string\<close> (lines 52 and 72). The other properties are stored
  into optional node fields and may be undefined.\<close>

record claim_properties =
  claimId :: "string option"
  claimAmount :: "number option"
  anomalyScore :: "number option"
  status :: "string option"
  policyholderId :: string

record claim_record =
  primaryKey :: string
  properties :: claim_properties

text \<open>The widget parameter \<open>claims\<close>: possibly undefined, with a possibly undefined
  \<open>objects\<close> array (the source reads it as \<open>claims?.objects?.length\<close>).\<close>

record object_set =
  objects :: "claim_record list option"

datatype node_kind = Claim | Policyholder | Agent

text \<open>\<open>interface ClaimNode\<close> (lines 7-24). The fields \<open>id\<close>, \<open>type\<close> and the
  others carry the prefix \<open>node_\<close>; an optional field is an \<open>option\<close>. The layout
  fields \<open>x, y, vx, vy\<close> belong to the layout engine, are never set by the builder and are
  read by none of the functions below, so they are left out.\<close>

record ClaimNode =
  node_id :: string
  node_type :: node_kind
  node_primaryKey :: string
  node_claimId :: "string option"
  node_claimAmount :: "number option"
  node_anomalyScore :: "number option"
  node_status :: "string option"
  node_policyholderId :: "string option"
  node_policyholderName :: "string option"
  node_riskProfile :: "string option"
  node_agentId :: "string option"
  node_agentName :: "string option"

datatype link_kind = ClaimPolicyholder | PolicyholderAgent

text \<open>\<open>interface Link\<close> (lines 26-30).\<close>

record Link =
  source :: string
  target :: string
  link_type :: link_kind

record graph_data =
  nodes :: "ClaimNode list"
  links :: "Link list"

section \<open>JavaScript containers\<close>

text \<open>A \<open>Map<string, V>\<close> keeps its entries in insertion order; \<open>set\<close> on a key that
  is present overwrites the value in place, on a new key it appends.\<close>

type_synonym 'v js_map = "(string \<times> 'v) list"

primrec Map_set :: "string \<Rightarrow> 'v \<Rightarrow> 'v js_map \<Rightarrow> 'v js_map" where
  "Map_set k v [] = [(k, v)]"
| "Map_set k v (e # es) = (if fst e = k then (k, v) # es else e # Map_set k v es)"

definition Map_has :: "string \<Rightarrow> 'v js_map \<Rightarrow> bool" where
  "Map_has k m = (k \<in> set (map fst m))"

definition Map_values :: "'v js_map \<Rightarrow> 'v list" where
  "Map_values m = map snd m"

text \<open>\<open>new Set(array)\<close>: the distinct elements in the order of their first occurrence.\<close>

definition Set_add :: "'a \<Rightarrow> 'a list \<Rightarrow> 'a list" where
  "Set_add x s = (if x \<in> set s then s else s @ [x])"

definition new_Set :: "'a list \<Rightarrow> 'a list" where
  "new_Set xs = foldl (\<lambda>s x. Set_add x s) [] xs"

section \<open>The graph builder \<open>buildGraphData\<close> (lines 41-117)\<close>

text \<open>The guard \<open>!claims?.objects?.length\<close> of lines 42 and 280.\<close>

definition no_claims :: "object_set option \<Rightarrow> bool" where
  "no_claims claims =
     (case claims of
        None \<Rightarrow> True
      | Some os \<Rightarrow> (case objects os of None \<Rightarrow> True | Some objs \<Rightarrow> length objs = 0))"

text \<open>Step 1 (lines 48-60): one \<open>Map.set\<close> per record.\<close>

definition claim_node :: "claim_record \<Rightarrow> ClaimNode" where
  "claim_node claim =
     \<lparr> node_id = ''claim-'' @ primaryKey claim,
       node_type = Claim,
       node_primaryKey = primaryKey claim,
       node_claimId = claimId (properties claim),
       node_claimAmount = claimAmount (properties claim),
       node_anomalyScore = anomalyScore (properties claim),
       node_status = status (properties claim),
       node_policyholderId = Some (policyholderId (properties claim)),
       node_policyholderName = None,
       node_riskProfile = None,
       node_agentId = None,
       node_agentName = None \<rparr>"

definition add_claims :: "claim_record list \<Rightarrow> ClaimNode js_map \<Rightarrow> ClaimNode js_map" where
  "add_claims cs nodeMap =
     foldl (\<lambda>m claim. Map_set (node_id (claim_node claim)) (claim_node claim) m) nodeMap cs"

text \<open>Step 2 (lines 63-78): the set of policyholder ids of the first 200 records; for each,
  a sample claim is looked up among all records, and a node is added unless its key is
  already present.\<close>

definition policyholder_node :: "string \<Rightarrow> claim_record \<Rightarrow> ClaimNode" where
  "policyholder_node phId sampleClaim =
     \<lparr> node_id = ''ph-'' @ phId,
       node_type = Policyholder,
       node_primaryKey = phId,
       node_claimId = None,
       node_claimAmount = None,
       node_anomalyScore = None,
       node_status = None,
       node_policyholderId = Some phId,
       node_policyholderName = Some (policyholderId (properties sampleClaim)),
       node_riskProfile = Some ''High Risk'',
       node_agentId = None,
       node_agentName = None \<rparr>"

definition add_policyholder ::
  "claim_record list \<Rightarrow> ClaimNode js_map \<Rightarrow> string \<Rightarrow> ClaimNode js_map" where
  "add_policyholder objs nodeMap phId =
     (case find (\<lambda>c. policyholderId (properties c) = phId) objs of
        None \<Rightarrow> nodeMap
      | Some sampleClaim \<Rightarrow>
          if \<not> Map_has (''ph-'' @ phId) nodeMap
          then Map_set (''ph-'' @ phId) (policyholder_node phId sampleClaim) nodeMap
          else nodeMap)"

definition add_policyholders ::
  "claim_record list \<Rightarrow> string list \<Rightarrow> ClaimNode js_map \<Rightarrow> ClaimNode js_map" where
  "add_policyholders objs policyholderIds nodeMap =
     foldl (add_policyholder objs) nodeMap policyholderIds"

text \<open>Step 3 (lines 81-97). The set \<open>agentIds\<close> of lines 81-84 is computed and never
  read; the three hardcoded agents are added unless their key is present.\<close>

definition agent_node :: "string \<Rightarrow> ClaimNode" where
  "agent_node agentId =
     \<lparr> node_id = ''agent-'' @ agentId,
       node_type = Agent,
       node_primaryKey = agentId,
       node_claimId = None,
       node_claimAmount = None,
       node_anomalyScore = None,
       node_status = None,
       node_policyholderId = None,
       node_policyholderName = None,
       node_riskProfile = None,
       node_agentId = Some agentId,
       node_agentName = Some agentId \<rparr>"

definition add_agent :: "ClaimNode js_map \<Rightarrow> string \<Rightarrow> ClaimNode js_map" where
  "add_agent nodeMap agentId =
     (if \<not> Map_has (''agent-'' @ agentId) nodeMap
      then Map_set (''agent-'' @ agentId) (agent_node agentId) nodeMap
      else nodeMap)"

definition add_agents :: "ClaimNode js_map \<Rightarrow> ClaimNode js_map" where
  "add_agents nodeMap = foldl add_agent nodeMap [''AGENT_0'', ''AGENT_1'', ''AGENT_2'']"

text \<open>Step 4 (lines 100-111): one \<open>push\<close> per record whose two node keys are present.\<close>

definition add_link :: "ClaimNode js_map \<Rightarrow> Link list \<Rightarrow> claim_record \<Rightarrow> Link list" where
  "add_link nodeMap ls claim =
     (let claimNodeId = ''claim-'' @ primaryKey claim;
          phNodeId = ''ph-'' @ policyholderId (properties claim)
      in if Map_has claimNodeId nodeMap \<and> Map_has phNodeId nodeMap
         then ls @ [\<lparr> source = claimNodeId, target = phNodeId, link_type = ClaimPolicyholder \<rparr>]
         else ls)"

definition build_links :: "ClaimNode js_map \<Rightarrow> claim_record list \<Rightarrow> Link list" where
  "build_links nodeMap cs = foldl (add_link nodeMap) [] cs"

definition build_nodeMap :: "claim_record list \<Rightarrow> ClaimNode js_map" where
  "build_nodeMap objs =
     add_agents
       (add_policyholders objs
          (new_Set (map (\<lambda>c. policyholderId (properties c)) (take 200 objs)))
          (add_claims (take 200 objs) []))"

definition buildGraphData :: "object_set option \<Rightarrow> graph_data" where
  "buildGraphData claims =
     (case claims of
        None \<Rightarrow> \<lparr> nodes = [], links = [] \<rparr>
      | Some os \<Rightarrow>
          (case objects os of
             None \<Rightarrow> \<lparr> nodes = [], links = [] \<rparr>
           | Some objs \<Rightarrow>
               if length objs = 0 then \<lparr> nodes = [], links = [] \<rparr>
               else \<lparr> nodes = Map_values (build_nodeMap objs),
                      links = build_links (build_nodeMap objs) (take 200 objs) \<rparr>))"

text \<open>The nodes of one kind in a derived graph.\<close>

definition nodes_of_kind :: "node_kind \<Rightarrow> graph_data \<Rightarrow> ClaimNode list" where
  "nodes_of_kind k g = filter (\<lambda>n. node_type n = k) (nodes g)"

text \<open>The input the host passes when it supplies the records \<open>objs\<close>.\<close>

definition claims_of :: "claim_record list \<Rightarrow> object_set option" where
  "claims_of objs = Some \<lparr> objects = Some objs \<rparr>"

section \<open>Arithmetic on numbers\<close>

text \<open>\<open>d.anomalyScore || 0\<close>: undefined, \<open>NaN\<close> and zero are falsy.\<close>

definition or_zero :: "number option \<Rightarrow> number" where
  "or_zero v = (case v of None \<Rightarrow> Num 0 | Some NaN \<Rightarrow> Num 0 | Some n \<Rightarrow> n)"

text \<open>The comparison \<open>a > b\<close> of two numbers: false as soon as one is \<open>NaN\<close>.\<close>

fun gt :: "number \<Rightarrow> number \<Rightarrow> bool" where
  "gt NaN b = False"
| "gt a NaN = False"
| "gt (Num a) (Num b) = (a > b)"
| "gt (Num a) Infinity = False"
| "gt (Num a) NegInfinity = True"
| "gt Infinity Infinity = False"
| "gt Infinity b = True"
| "gt NegInfinity b = False"

text \<open>The comparison \<open>a <= b\<close>.\<close>

fun le :: "number \<Rightarrow> number \<Rightarrow> bool" where
  "le NaN b = False"
| "le a NaN = False"
| "le (Num a) (Num b) = (a \<le> b)"
| "le (Num a) Infinity = True"
| "le (Num a) NegInfinity = False"
| "le Infinity Infinity = True"
| "le Infinity b = False"
| "le NegInfinity b = True"

text \<open>The Number value for a real \<open>x\<close>: the double nearest to \<open>x\<close>, a tie going to the
  even significand, and an infinity when the rounded magnitude reaches \<open>2^1024\<close>. Around
  \<open>x\<close> the doubles are the integer multiples of \<open>quantum x\<close>: 53 significant bits in
  the binade of \<open>x\<close>, and the fixed spacing \<open>2^-1074\<close> below \<open>2^-1022\<close>.\<close>

definition round_ties_even :: "real \<Rightarrow> int" where
  "round_ties_even r =
     (let f = \<lfloor>r\<rfloor>; d = r - of_int f
      in if d < 1/2 then f else if d > 1/2 then f + 1 else if even f then f else f + 1)"

definition expo :: "real \<Rightarrow> int" where
  "expo x = max \<lfloor>log 2 \<bar>x\<bar>\<rfloor> (- 1022)"

definition quantum :: "real \<Rightarrow> real" where
  "quantum x = 2 powr (of_int (expo x) - 52)"

definition nearest :: "real \<Rightarrow> real" where
  "nearest x = quantum x * of_int (round_ties_even (x / quantum x))"

definition to_number :: "real \<Rightarrow> number" where
  "to_number x =
     (if x = 0 then Num 0
      else if nearest x \<ge> 2 powr 1024 then Infinity
      else if nearest x \<le> - (2 powr 1024) then NegInfinity
      else Num (nearest x))"

text \<open>\<open>x / c\<close>, \<open>x * c\<close> and \<open>x + c\<close> for a finite constant \<open>c > 0\<close>, and
  \<open>Math.sqrt(x)\<close>: the exact result, rounded once; \<open>NaN\<close> and the infinities pass
  through, and the root of a negative number is \<open>NaN\<close>.\<close>

fun divide_const :: "number \<Rightarrow> real \<Rightarrow> number" where
  "divide_const (Num a) c = to_number (a / c)"
| "divide_const v c = v"

fun times_const :: "number \<Rightarrow> real \<Rightarrow> number" where
  "times_const (Num a) c = to_number (a * c)"
| "times_const v c = v"

fun plus_const :: "number \<Rightarrow> real \<Rightarrow> number" where
  "plus_const (Num a) c = to_number (a + c)"
| "plus_const v c = v"

fun Math_sqrt :: "number \<Rightarrow> number" where
  "Math_sqrt (Num a) = (if a < 0 then NaN else to_number (sqrt a))"
| "Math_sqrt Infinity = Infinity"
| "Math_sqrt v = NaN"

section \<open>The view (lines 120-310)\<close>

text \<open>What the component returns (lines 280-310): the static placeholder, or the
  surface that holds the graph.\<close>

datatype view = Placeholder | GraphSurface

definition FraudNetworkWidget :: "object_set option \<Rightarrow> view" where
  "FraudNetworkWidget claims = (if no_claims claims then Placeholder else GraphSurface)"

text \<open>The effect of lines 120-278, as far as the simulation goes. \<open>svgRef_current\<close> says
  whether the surface is mounted. The guard of line 121 reads \<open>claims?.objects.length\<close>,
  without the second \<open>?.\<close>: on a defined \<open>claims\<close> with undefined \<open>objects\<close> it
  raises. Past the guard, line 123 calls \<open>d3.select\<close>; \<open>d3\<close> is the module
  \<open>d3-force\<close> (line 3), which exports no \<open>select\<close>, so the call raises and
  \<open>d3.forceSimulation\<close> (line 187) is not reached.\<close>

datatype js_error = TypeError

datatype simulation = forceSimulation "ClaimNode list" "Link list"

definition useEffect_body :: "bool \<Rightarrow> object_set option \<Rightarrow> js_error + simulation option" where
  "useEffect_body svgRef_current claims =
     (if \<not> svgRef_current then Inr None
      else (case claims of
              None \<Rightarrow> Inr None
            | Some os \<Rightarrow>
                (case objects os of
                   None \<Rightarrow> Inl TypeError
                 | Some objs \<Rightarrow>
                     if length objs = 0 then Inr None
                     else Inl TypeError)))"

text \<open>\<open>nodeRadius\<close> (lines 206-210).\<close>

definition nodeRadius :: "ClaimNode \<Rightarrow> number" where
  "nodeRadius d =
     (if node_type d = Claim then
        plus_const (times_const (Math_sqrt (divide_const (or_zero (node_claimAmount d)) 5000)) 4) 3
      else if node_type d = Policyholder then Num 8
      else Num 12)"

text \<open>\<open>nodeColor\<close> (lines 212-221).\<close>

definition nodeColor :: "ClaimNode \<Rightarrow> string" where
  "nodeColor d =
     (if node_type d = Claim then
        (let score = or_zero (node_anomalyScore d)
         in if gt score (Num 70) then ''#ff4444''
            else if gt score (Num 40) then ''#ffaa00''
            else ''#88cc88'')
      else if node_type d = Policyholder then
        (if node_riskProfile d = Some ''High Risk'' then ''#ff8800'' else ''#66bb6a'')
      else ''#1976d2'')"

text \<open>\<open>handleNodeClick\<close> (lines 240-246). A host callback is a function from its payload
  to a change of the host's state \<open>'h\<close>, or \<open>None\<close> when the host has not wired it; the
  handler's result is the host state after the click.\<close>

datatype flagSuspicious_payload = FlagPayload (payload_claimId: string)

datatype investigateCluster_payload = ClusterPayload (payload_agentId: "string option")

definition handleNodeClick ::
  "(flagSuspicious_payload \<Rightarrow> 'h \<Rightarrow> 'h) option \<Rightarrow>
   (investigateCluster_payload \<Rightarrow> 'h \<Rightarrow> 'h) option \<Rightarrow> ClaimNode \<Rightarrow> 'h \<Rightarrow> 'h" where
  "handleNodeClick flagSuspicious investigateCluster d h =
     (case (if node_type d = Claim then flagSuspicious else None) of
        Some f \<Rightarrow> f (FlagPayload (node_primaryKey d)) h
      | None \<Rightarrow>
          (case (if node_type d = Agent then investigateCluster else None) of
             Some g \<Rightarrow> g (ClusterPayload (node_agentId d)) h
           | None \<Rightarrow> h))"

section \<open>Vocabulary for the statements\<close>

text \<open>The key of a record's claim node, a record's policyholder id, the entry a policyholder
  id is expected to have in the node map, the entry of a hardcoded agent, and the link of a
  record.\<close>

definition claim_key :: "claim_record \<Rightarrow> string" where
  "claim_key c = ''claim-'' @ primaryKey c"

definition phId_of :: "claim_record \<Rightarrow> string" where
  "phId_of c = policyholderId (properties c)"

definition ph_entry :: "string \<Rightarrow> string \<times> ClaimNode" where
  "ph_entry p =
     (''ph-'' @ p,
      \<lparr> node_id = ''ph-'' @ p, node_type = Policyholder, node_primaryKey = p,
        node_claimId = None, node_claimAmount = None, node_anomalyScore = None,
        node_status = None, node_policyholderId = Some p,
        node_policyholderName = Some p, node_riskProfile = Some ''High Risk'',
        node_agentId = None, node_agentName = None \<rparr>)"

definition agent_entry :: "string \<Rightarrow> string \<times> ClaimNode" where
  "agent_entry a = (''agent-'' @ a, agent_node a)"

definition link_of :: "claim_record \<Rightarrow> Link" where
  "link_of c = \<lparr> source = ''claim-'' @ primaryKey c,
                 target = ''ph-'' @ policyholderId (properties c),
                 link_type = ClaimPolicyholder \<rparr>"

text \<open>The last of the records \<open>cs\<close> that has the primary key of \<open>c\<close>.\<close>

definition last_with_key :: "claim_record list \<Rightarrow> claim_record \<Rightarrow> claim_record" where
  "last_with_key cs c = last (filter (\<lambda>c'. primaryKey c' = primaryKey c) cs)"

text \<open>Concrete inputs: three records of two policyholders, and two records that share
  the primary key \<open>K1\<close>.\<close>

definition mk_claim ::
  "string \<Rightarrow> string \<Rightarrow> real \<Rightarrow> real \<Rightarrow> string \<Rightarrow> string \<Rightarrow> claim_record" where
  "mk_claim pk cid amount score st ph =
     \<lparr> primaryKey = pk,
       properties = \<lparr> claimId = Some cid, claimAmount = Some (Num amount),
                      anomalyScore = Some (Num score), status = Some st,
                      policyholderId = ph \<rparr> \<rparr>"

definition sample_claims :: "claim_record list" where
  "sample_claims =
     [mk_claim ''K1'' ''CLM-1'' 5000 75 ''OPEN'' ''P1'',
      mk_claim ''K2'' ''CLM-2'' 20000 50 ''OPEN'' ''P1'',
      mk_claim ''K3'' ''CLM-3'' 1000 10 ''CLOSED'' ''P2'']"

definition duplicate_claims :: "claim_record list" where
  "duplicate_claims =
     [mk_claim ''K1'' ''CLM-1'' 5000 75 ''OPEN'' ''P1'',
      mk_claim ''K1'' ''CLM-2'' 20000 50 ''OPEN'' ''P2'']"

text \<open>The edge of the first of the three records.\<close>

definition sample_link :: Link where
  "sample_link = \<lparr> source = ''claim-K1'', target = ''ph-P1'', link_type = ClaimPolicyholder \<rparr>"

text \<open>The radius as a function of the amount, the numbers that are zero or above, and a
  claim node with a given amount.\<close>

definition radius_of_amount :: "number \<Rightarrow> number" where
  "radius_of_amount v = plus_const (times_const (Math_sqrt (divide_const v 5000)) 4) 3"

fun nonneg :: "number \<Rightarrow> bool" where
  "nonneg (Num a) = (0 \<le> a)"
| "nonneg Infinity = True"
| "nonneg v = False"

definition amount_node :: "number \<Rightarrow> ClaimNode" where
  "amount_node v =
     claim_node \<lparr> primaryKey = ''K1'',
                  properties = \<lparr> claimId = Some ''CLM-1'', claimAmount = Some v,
                                 anomalyScore = Some (Num 75), status = Some ''OPEN'',
                                 policyholderId = ''P1'' \<rparr> \<rparr>"

text \<open>The radius in exact arithmetic, as the formula is written, and the numbers within a
  tolerance of a real.\<close>

definition exact_radius :: "real \<Rightarrow> real" where
  "exact_radius a = sqrt (a / 5000) * 4 + 3"

fun close_to :: "number \<Rightarrow> real \<Rightarrow> real \<Rightarrow> bool" where
  "close_to (Num r) x tol = (\<bar>r - x\<bar> \<le> tol)"
| "close_to v x tol = False"


section \<open>Properties of the containers and of the four steps\<close>

lemma Map_set_keys: "fst ` set (Map_set k v m) = insert k (fst ` set m)"
  by (induction m) auto

lemma Map_set_distinct: "distinct (map fst m) \<Longrightarrow> distinct (map fst (Map_set k v m))"
  by (induction m) (auto simp: Map_set_keys)

lemma Map_set_fresh: "k \<notin> fst ` set m \<Longrightarrow> Map_set k v m = m @ [(k, v)]"
  by (induction m) auto

lemma Map_set_entries: "set (Map_set k v m) \<subseteq> insert (k, v) (set m)"
  by (induction m) auto

lemma foldl_Set_add_set: "set (foldl (\<lambda>s x. Set_add x s) s xs) = set s \<union> set xs"
  by (induction xs arbitrary: s) (auto simp: Set_add_def)

lemma foldl_Set_add_distinct:
  "distinct s \<Longrightarrow> distinct (foldl (\<lambda>s x. Set_add x s) s xs)"
  by (induction xs arbitrary: s) (auto simp: Set_add_def)

lemma set_new_Set: "set (new_Set xs) = set xs"
  by (simp add: new_Set_def foldl_Set_add_set)

lemma distinct_new_Set: "distinct (new_Set xs)"
  by (simp add: new_Set_def foldl_Set_add_distinct)

lemma add_claims_Cons:
  "add_claims (c # cs) m = add_claims cs (Map_set (claim_key c) (claim_node c) m)"
  by (simp add: add_claims_def claim_node_def claim_key_def)

lemma add_claims_Nil: "add_claims [] m = m"
  by (simp add: add_claims_def)

lemma add_claims_keys:
  "fst ` set (add_claims cs m) = fst ` set m \<union> claim_key ` set cs"
  by (induction cs arbitrary: m) (auto simp: add_claims_Cons add_claims_Nil Map_set_keys)

lemma add_claims_distinct:
  "distinct (map fst m) \<Longrightarrow> distinct (map fst (add_claims cs m))"
  by (induction cs arbitrary: m) (auto simp: add_claims_Cons add_claims_Nil Map_set_distinct)

lemma add_claims_entries:
  "set (add_claims cs m) \<subseteq> set m \<union> (\<lambda>c. (claim_key c, claim_node c)) ` set cs"
proof (induction cs arbitrary: m)
  case Nil
  show ?case by (simp add: add_claims_Nil)
next
  case (Cons c cs)
  have "set (add_claims cs (Map_set (claim_key c) (claim_node c) m))
        \<subseteq> set (Map_set (claim_key c) (claim_node c) m)
          \<union> (\<lambda>c. (claim_key c, claim_node c)) ` set cs"
    by (rule Cons.IH)
  with Map_set_entries [of "claim_key c" "claim_node c" m] show ?case
    by (auto simp: add_claims_Cons)
qed

lemma length_add_claims:
  "length (add_claims cs []) = card (primaryKey ` set cs)"
proof -
  have d: "distinct (map fst (add_claims cs []))"
    by (rule add_claims_distinct) simp
  have "length (add_claims cs []) = length (map fst (add_claims cs []))" by simp
  also have "\<dots> = card (set (map fst (add_claims cs [])))"
    using d by (simp only: distinct_card)
  also have "\<dots> = card (claim_key ` set cs)"
    by (simp add: add_claims_keys)
  also have "claim_key ` set cs = (\<lambda>s. ''claim-'' @ s) ` (primaryKey ` set cs)"
    by (auto simp: claim_key_def)
  also have "card \<dots> = card (primaryKey ` set cs)"
    by (rule card_image) (simp add: inj_on_def)
  finally show ?thesis .
qed

lemma find_phId:
  assumes "p \<in> phId_of ` set objs"
  shows "\<exists>c. find (\<lambda>c. policyholderId (properties c) = p) objs = Some c
             \<and> policyholderId (properties c) = p"
proof (cases "find (\<lambda>c. policyholderId (properties c) = p) objs")
  case None
  with assms show ?thesis by (auto simp: find_None_iff phId_of_def)
next
  case (Some c)
  then show ?thesis by (auto simp: find_Some_iff)
qed

lemma add_policyholder_fresh:
  assumes "p \<in> phId_of ` set objs" and "''ph-'' @ p \<notin> fst ` set m"
  shows "add_policyholder objs m p = m @ [ph_entry p]"
proof -
  from find_phId [OF assms(1)] obtain c
    where c: "find (\<lambda>c. policyholderId (properties c) = p) objs = Some c"
      and p: "policyholderId (properties c) = p" by blast
  have "policyholder_node p c = snd (ph_entry p)"
    by (simp add: policyholder_node_def ph_entry_def p)
  with c assms(2) show ?thesis
    by (simp add: add_policyholder_def Map_has_def Map_set_fresh ph_entry_def)
qed

lemma add_policyholders_fresh:
  assumes "distinct ps" and "set ps \<subseteq> phId_of ` set objs"
    and "\<forall>p \<in> set ps. ''ph-'' @ p \<notin> fst ` set m"
  shows "add_policyholders objs ps m = m @ map ph_entry ps"
  using assms
proof (induction ps arbitrary: m)
  case Nil
  show ?case by (simp add: add_policyholders_def)
next
  case (Cons p ps)
  have step: "add_policyholder objs m p = m @ [ph_entry p]"
    using Cons.prems by (intro add_policyholder_fresh) auto
  have "add_policyholders objs ps (m @ [ph_entry p]) = (m @ [ph_entry p]) @ map ph_entry ps"
    using Cons.prems by (intro Cons.IH) (auto simp: ph_entry_def)
  then show ?case
    using step by (simp add: add_policyholders_def)
qed

lemma add_agents_fresh:
  assumes "''agent-AGENT_0'' \<notin> fst ` set m" and "''agent-AGENT_1'' \<notin> fst ` set m"
    and "''agent-AGENT_2'' \<notin> fst ` set m"
  shows "add_agents m = m @ map agent_entry [''AGENT_0'', ''AGENT_1'', ''AGENT_2'']"
  using assms
  by (simp add: add_agents_def add_agent_def Map_has_def Map_set_fresh agent_entry_def
      Map_set_keys)

lemma claims_keys_prefix:
  assumes "k \<in> fst ` set (add_claims cs [])"
  shows "take 6 k = ''claim-''"
proof -
  from assms have "k \<in> claim_key ` set cs"
    unfolding add_claims_keys by simp
  then show ?thesis by (auto simp: claim_key_def)
qed

lemma claims_phs_keys:
  assumes "k \<in> fst ` set (add_claims cs [] @ map ph_entry ps)"
  shows "take 6 k = ''claim-'' \<or> take 3 k = ''ph-''"
proof -
  from assms have "k \<in> fst ` set (add_claims cs []) \<or> k \<in> fst ` set (map ph_entry ps)"
    by auto
  then show ?thesis
  proof
    assume "k \<in> fst ` set (add_claims cs [])"
    then show ?thesis by (simp add: claims_keys_prefix)
  next
    assume "k \<in> fst ` set (map ph_entry ps)"
    then show ?thesis by (auto simp: ph_entry_def)
  qed
qed

lemma build_nodeMap_eq:
  "build_nodeMap objs =
     add_claims (take 200 objs) []
     @ map ph_entry (new_Set (map phId_of (take 200 objs)))
     @ map agent_entry [''AGENT_0'', ''AGENT_1'', ''AGENT_2'']"
proof -
  let ?cs = "take 200 objs"
  let ?ps = "new_Set (map phId_of ?cs)"
  let ?m1 = "add_claims ?cs []"
  have sub: "set ?ps \<subseteq> phId_of ` set objs"
    using set_take_subset [of 200 objs] by (auto simp: set_new_Set)
  have fresh: "\<forall>p \<in> set ?ps. ''ph-'' @ p \<notin> fst ` set ?m1"
    by (auto simp: add_claims_keys claim_key_def)
  have m2: "add_policyholders objs ?ps ?m1 = ?m1 @ map ph_entry ?ps"
    using distinct_new_Set sub fresh by (rule add_policyholders_fresh)
  have "add_agents (?m1 @ map ph_entry ?ps)
             = (?m1 @ map ph_entry ?ps) @ map agent_entry [''AGENT_0'', ''AGENT_1'', ''AGENT_2'']"
  proof (rule add_agents_fresh)
    show "''agent-AGENT_0'' \<notin> fst ` set (?m1 @ map ph_entry ?ps)"
      using claims_phs_keys [of "''agent-AGENT_0''" ?cs ?ps] by auto
    show "''agent-AGENT_1'' \<notin> fst ` set (?m1 @ map ph_entry ?ps)"
      using claims_phs_keys [of "''agent-AGENT_1''" ?cs ?ps] by auto
    show "''agent-AGENT_2'' \<notin> fst ` set (?m1 @ map ph_entry ?ps)"
      using claims_phs_keys [of "''agent-AGENT_2''" ?cs ?ps] by auto
  qed
  with m2 show ?thesis
    by (simp add: build_nodeMap_def phId_of_def [abs_def])
qed

lemma node_type_claim_node: "node_type (claim_node c) = Claim"
  by (simp add: claim_node_def)

lemma node_type_ph_entry: "node_type (snd (ph_entry p)) = Policyholder"
  by (simp add: ph_entry_def)

lemma node_type_agent_node: "node_type (agent_node a) = Agent"
  by (simp add: agent_node_def)

lemma add_claims_values:
  assumes "n \<in> snd ` set (add_claims cs [])"
  shows "\<exists>c \<in> set cs. n = claim_node c"
  using assms add_claims_entries [of cs "[]"] by auto

lemma add_claims_entry_id:
  assumes "(k, n) \<in> set (add_claims cs [])"
  shows "node_id n = k"
  using assms add_claims_entries [of cs "[]"] by (auto simp: claim_node_def claim_key_def)

lemma nodes_nonempty:
  "objs \<noteq> [] \<Longrightarrow>
   nodes (buildGraphData (claims_of objs)) =
     map snd (add_claims (take 200 objs) [])
     @ map (snd \<circ> ph_entry) (new_Set (map phId_of (take 200 objs)))
     @ map agent_node [''AGENT_0'', ''AGENT_1'', ''AGENT_2'']"
  by (simp add: buildGraphData_def claims_of_def Map_values_def build_nodeMap_eq
      agent_entry_def)

lemma nodes_empty: "nodes (buildGraphData (claims_of [])) = []"
  by (simp add: buildGraphData_def claims_of_def)

lemma filter_claim_nodes:
  "filter (\<lambda>n. node_type n = k) (map snd (add_claims cs []))
   = (if k = Claim then map snd (add_claims cs []) else [])"
proof -
  have "\<forall>n \<in> set (map snd (add_claims cs [])). node_type n = Claim"
  proof
    fix n assume "n \<in> set (map snd (add_claims cs []))"
    then have "n \<in> snd ` set (add_claims cs [])" by simp
    then obtain c where "n = claim_node c" using add_claims_values by blast
    then show "node_type n = Claim" by (simp add: node_type_claim_node)
  qed
  then show ?thesis
    by (auto simp: filter_empty_conv filter_id_conv)
qed

lemma filter_ph_nodes:
  "filter (\<lambda>n. node_type n = k) (map (snd \<circ> ph_entry) ps)
   = (if k = Policyholder then map (snd \<circ> ph_entry) ps else [])"
  by (induction ps) (auto simp: node_type_ph_entry)

lemma filter_agent_nodes:
  "filter (\<lambda>n. node_type n = k) (map agent_node as)
   = (if k = Agent then map agent_node as else [])"
  by (induction as) (auto simp: node_type_agent_node)

lemma claim_nodes_nonempty:
  "objs \<noteq> [] \<Longrightarrow>
   nodes_of_kind Claim (buildGraphData (claims_of objs)) = map snd (add_claims (take 200 objs) [])"
  by (simp add: nodes_of_kind_def nodes_nonempty filter_claim_nodes filter_ph_nodes
      filter_agent_nodes del: map_map list.map filter.simps)

lemma ph_nodes_nonempty:
  "objs \<noteq> [] \<Longrightarrow>
   nodes_of_kind Policyholder (buildGraphData (claims_of objs))
   = map (snd \<circ> ph_entry) (new_Set (map phId_of (take 200 objs)))"
  by (simp add: nodes_of_kind_def nodes_nonempty filter_claim_nodes filter_ph_nodes
      filter_agent_nodes del: map_map list.map filter.simps)

lemma agent_nodes_nonempty:
  "objs \<noteq> [] \<Longrightarrow>
   nodes_of_kind Agent (buildGraphData (claims_of objs))
   = map agent_node [''AGENT_0'', ''AGENT_1'', ''AGENT_2'']"
  by (simp add: nodes_of_kind_def nodes_nonempty filter_claim_nodes filter_ph_nodes
      filter_agent_nodes del: map_map list.map filter.simps)

lemma count_claim_nodes:
  "length (nodes_of_kind Claim (buildGraphData (claims_of objs)))
   = card (primaryKey ` set (take 200 objs))"
proof (cases "objs = []")
  case True
  then show ?thesis by (simp add: nodes_of_kind_def nodes_empty)
next
  case False
  then show ?thesis by (simp add: claim_nodes_nonempty length_add_claims)
qed

lemma card_image_eq_length_iff:
  "(card (f ` set xs) = length xs) = distinct (map f xs)"
proof
  assume "card (f ` set xs) = length xs"
  then have "card (set (map f xs)) = length (map f xs)" by simp
  then show "distinct (map f xs)" by (rule card_distinct)
next
  assume "distinct (map f xs)"
  then have "card (set (map f xs)) = length (map f xs)" by (rule distinct_card)
  then show "card (f ` set xs) = length xs" by simp
qed

lemma build_nodeMap_keys:
  "fst ` set (build_nodeMap objs) =
     claim_key ` set (take 200 objs)
     \<union> (\<lambda>c. ''ph-'' @ phId_of c) ` set (take 200 objs)
     \<union> {''agent-AGENT_0'', ''agent-AGENT_1'', ''agent-AGENT_2''}"
proof -
  have "fst ` set (map ph_entry (new_Set (map phId_of (take 200 objs))))
        = (\<lambda>c. ''ph-'' @ phId_of c) ` set (take 200 objs)"
    by (auto simp: set_new_Set ph_entry_def image_iff)
  then show ?thesis
    unfolding build_nodeMap_eq set_append image_Un add_claims_keys
    by (auto simp: agent_entry_def)
qed

lemma build_nodeMap_entry_id:
  assumes "(k, n) \<in> set (build_nodeMap objs)"
  shows "node_id n = k"
proof -
  from assms consider "(k, n) \<in> set (add_claims (take 200 objs) [])"
    | "(k, n) \<in> set (map ph_entry (new_Set (map phId_of (take 200 objs))))"
    | "(k, n) \<in> set (map agent_entry [''AGENT_0'', ''AGENT_1'', ''AGENT_2''])"
    unfolding build_nodeMap_eq by auto
  then show ?thesis
  proof cases
    case 1 then show ?thesis by (rule add_claims_entry_id)
  next
    case 2 then show ?thesis by (auto simp: ph_entry_def)
  next
    case 3 then show ?thesis by (auto simp: agent_entry_def agent_node_def)
  qed
qed

lemma add_link_present:
  assumes "Map_has (''claim-'' @ primaryKey c) m" and "Map_has (''ph-'' @ policyholderId (properties c)) m"
  shows "add_link m ls c = ls @ [link_of c]"
  using assms by (simp add: add_link_def link_of_def)

lemma foldl_add_link_present:
  assumes "\<forall>c \<in> set cs. Map_has (''claim-'' @ primaryKey c) m
                        \<and> Map_has (''ph-'' @ policyholderId (properties c)) m"
  shows "foldl (add_link m) ls cs = ls @ map link_of cs"
  using assms by (induction cs arbitrary: ls) (simp_all add: add_link_present)

lemma build_nodeMap_has:
  assumes "c \<in> set (take 200 objs)"
  shows "Map_has (''claim-'' @ primaryKey c) (build_nodeMap objs)"
    and "Map_has (''ph-'' @ policyholderId (properties c)) (build_nodeMap objs)"
proof -
  have "claim_key c \<in> fst ` set (build_nodeMap objs)"
    unfolding build_nodeMap_keys using assms by blast
  then show "Map_has (''claim-'' @ primaryKey c) (build_nodeMap objs)"
    by (simp add: Map_has_def claim_key_def)
  have "''ph-'' @ phId_of c \<in> fst ` set (build_nodeMap objs)"
    unfolding build_nodeMap_keys using assms by blast
  then show "Map_has (''ph-'' @ policyholderId (properties c)) (build_nodeMap objs)"
    by (simp add: Map_has_def phId_of_def)
qed

lemma links_eq:
  "links (buildGraphData (claims_of objs)) = map link_of (take 200 objs)"
proof (cases "objs = []")
  case True
  then show ?thesis by (simp add: buildGraphData_def claims_of_def)
next
  case False
  have "build_links (build_nodeMap objs) (take 200 objs) = [] @ map link_of (take 200 objs)"
    unfolding build_links_def
    by (rule foldl_add_link_present) (blast intro: build_nodeMap_has)
  with False show ?thesis by (simp add: buildGraphData_def claims_of_def)
qed

lemmas build_defs = buildGraphData_def claims_of_def build_nodeMap_def add_claims_def
  add_policyholders_def add_policyholder_def add_agents_def add_agent_def build_links_def
  add_link_def Map_has_def Map_values_def new_Set_def Set_add_def claim_node_def
  policyholder_node_def agent_node_def nodes_of_kind_def mk_claim_def Let_def

lemma buildGraphData_cases:
  "buildGraphData claims = \<lparr> nodes = [], links = [] \<rparr>
   \<or> (\<exists>objs. objs \<noteq> [] \<and> claims = claims_of objs)"
proof (cases claims)
  case None
  then show ?thesis by (simp add: buildGraphData_def)
next
  case (Some os)
  show ?thesis
  proof (cases "objects os")
    case None
    with Some show ?thesis by (simp add: buildGraphData_def)
  next
    case (Some objs)
    then have os: "os = \<lparr> objects = Some objs \<rparr>" by (cases os) simp
    show ?thesis
    proof (cases "objs = []")
      case True
      with \<open>claims = Some os\<close> os show ?thesis by (simp add: buildGraphData_def)
    next
      case False
      with \<open>claims = Some os\<close> os show ?thesis by (auto simp: claims_of_def)
    qed
  qed
qed

lemma map_node_id_add_claims:
  "map node_id (map snd (add_claims cs [])) = map fst (add_claims cs [])"
  by (auto simp: add_claims_entry_id)

lemma map_node_id_ph_entries:
  "map node_id (map (snd \<circ> ph_entry) ps) = map (\<lambda>p. ''ph-'' @ p) ps"
  by (simp add: ph_entry_def)

lemma node_ids_nonempty:
  assumes "objs \<noteq> []"
  shows "node_id ` set (nodes (buildGraphData (claims_of objs))) = fst ` set (build_nodeMap objs)"
proof -
  have "node_id ` snd ` set (build_nodeMap objs) = fst ` set (build_nodeMap objs)"
    using build_nodeMap_entry_id [of _ _ objs] by force
  with assms show ?thesis
    by (simp add: buildGraphData_def claims_of_def Map_values_def)
qed

lemma link_endpoints_nonempty:
  assumes "objs \<noteq> []" and "l \<in> set (links (buildGraphData (claims_of objs)))"
  shows "source l \<in> node_id ` set (nodes (buildGraphData (claims_of objs)))"
    and "target l \<in> node_id ` set (nodes (buildGraphData (claims_of objs)))"
proof -
  from assms(2) obtain c where c: "c \<in> set (take 200 objs)" and l: "l = link_of c"
    by (auto simp: links_eq)
  have "claim_key c \<in> fst ` set (build_nodeMap objs)"
    unfolding build_nodeMap_keys using c by blast
  then show "source l \<in> node_id ` set (nodes (buildGraphData (claims_of objs)))"
    by (simp add: node_ids_nonempty [OF assms(1)] l link_of_def claim_key_def)
  have "''ph-'' @ phId_of c \<in> fst ` set (build_nodeMap objs)"
    unfolding build_nodeMap_keys using c by blast
  then show "target l \<in> node_id ` set (nodes (buildGraphData (claims_of objs)))"
    by (simp add: node_ids_nonempty [OF assms(1)] l link_of_def phId_of_def)
qed

lemma add_link_absent:
  "\<not> (Map_has (''claim-'' @ primaryKey c) m \<and> Map_has (''ph-'' @ policyholderId (properties c)) m)
   \<Longrightarrow> add_link m ls c = ls"
  by (auto simp: add_link_def)

lemma map_of_Map_set: "map_of (Map_set k v m) = (map_of m)(k \<mapsto> v)"
  by (induction m) auto

lemma find_append:
  "find P (xs @ ys) = (case find P xs of Some x \<Rightarrow> Some x | None \<Rightarrow> find P ys)"
  by (induction xs) auto

lemma find_rev:
  "find P (rev cs) = (if filter P cs = [] then None else Some (last (filter P cs)))"
  by (induction cs) (auto simp: find_append)

lemma map_of_add_claims:
  "map_of (add_claims cs m) k =
     (case find (\<lambda>c. claim_key c = k) (rev cs) of
        Some c \<Rightarrow> Some (claim_node c)
      | None \<Rightarrow> map_of m k)"
proof (induction cs arbitrary: m)
  case Nil
  show ?case by (simp add: add_claims_Nil)
next
  case (Cons c cs)
  show ?case
    by (simp add: add_claims_Cons Cons.IH map_of_Map_set find_append split: option.splits)
qed

lemma claim_key_eq: "(claim_key c' = claim_key c) = (primaryKey c' = primaryKey c)"
  by (simp add: claim_key_def)

lemma map_of_add_claims_key:
  assumes "c \<in> set cs"
  shows "map_of (add_claims cs []) (claim_key c) = Some (claim_node (last_with_key cs c))"
proof -
  have "filter (\<lambda>c'. primaryKey c' = primaryKey c) cs \<noteq> []"
    using assms by (auto simp: filter_empty_conv)
  then show ?thesis
    by (simp add: map_of_add_claims find_rev claim_key_eq last_with_key_def)
qed

lemma last_with_key_props:
  assumes "c \<in> set cs"
  shows "last_with_key cs c \<in> set cs" and "primaryKey (last_with_key cs c) = primaryKey c"
proof -
  let ?f = "filter (\<lambda>c'. primaryKey c' = primaryKey c) cs"
  have ne: "?f \<noteq> []" using assms by (auto simp: filter_empty_conv)
  then have "last ?f \<in> set ?f" by (rule last_in_set)
  then show "last_with_key cs c \<in> set cs" and "primaryKey (last_with_key cs c) = primaryKey c"
    by (simp_all add: last_with_key_def)
qed

lemma add_claims_values_set:
  "snd ` set (add_claims cs []) = (\<lambda>c. claim_node (last_with_key cs c)) ` set cs"
proof -
  have d: "distinct (map fst (add_claims cs []))"
    by (rule add_claims_distinct) simp
  show ?thesis
  proof (intro set_eqI iffI)
    fix v assume "v \<in> snd ` set (add_claims cs [])"
    then obtain k where kv: "(k, v) \<in> set (add_claims cs [])" by auto
    then have "k \<in> fst ` set (add_claims cs [])" by force
    then obtain c where c: "c \<in> set cs" and k: "k = claim_key c"
      by (auto simp: add_claims_keys)
    from kv d have "map_of (add_claims cs []) k = Some v" by simp
    with map_of_add_claims_key [OF c] k have "v = claim_node (last_with_key cs c)" by simp
    with c show "v \<in> (\<lambda>c. claim_node (last_with_key cs c)) ` set cs" by blast
  next
    fix v assume "v \<in> (\<lambda>c. claim_node (last_with_key cs c)) ` set cs"
    then obtain c where c: "c \<in> set cs" and v: "v = claim_node (last_with_key cs c)" by auto
    from map_of_add_claims_key [OF c] d
    have "(claim_key c, claim_node (last_with_key cs c)) \<in> set (add_claims cs [])" by simp
    with v show "v \<in> snd ` set (add_claims cs [])" by force
  qed
qed

lemma claim_nodes_set:
  "set (nodes_of_kind Claim (buildGraphData (claims_of objs)))
   = (\<lambda>c. claim_node (last_with_key (take 200 objs) c)) ` set (take 200 objs)"
proof (cases "objs = []")
  case True
  then show ?thesis by (simp add: nodes_of_kind_def nodes_empty)
next
  case False
  then show ?thesis by (simp add: claim_nodes_nonempty add_claims_values_set)
qed

section \<open>Properties of the rounding and of the radius\<close>

lemma rte_bounds: "\<lfloor>r\<rfloor> \<le> round_ties_even r \<and> round_ties_even r \<le> \<lfloor>r\<rfloor> + 1"
  by (simp add: round_ties_even_def Let_def)

lemma rte_of_int: "round_ties_even (of_int n) = n"
  by (simp add: round_ties_even_def)

lemma rte_mono:
  assumes "a \<le> b"
  shows "round_ties_even a \<le> round_ties_even b"
proof (cases "\<lfloor>a\<rfloor> = \<lfloor>b\<rfloor>")
  case True
  have "a - of_int \<lfloor>a\<rfloor> \<le> b - of_int \<lfloor>b\<rfloor>"
    using assms True by simp
  then show ?thesis
    using True by (auto simp: round_ties_even_def Let_def)
next
  case False
  have "\<lfloor>a\<rfloor> \<le> \<lfloor>b\<rfloor>" using assms by (rule floor_mono)
  with False have "\<lfloor>a\<rfloor> + 1 \<le> \<lfloor>b\<rfloor>" by simp
  with rte_bounds [of a] rte_bounds [of b] show ?thesis by linarith
qed

lemma rte_le_int: "a \<le> of_int n \<Longrightarrow> round_ties_even a \<le> n"
  using rte_mono [of a "of_int n"] by (simp add: rte_of_int)

lemma rte_ge_int: "of_int n \<le> a \<Longrightarrow> n \<le> round_ties_even a"
  using rte_mono [of "of_int n" a] by (simp add: rte_of_int)

lemma floor_log2_bounds:
  assumes "0 < x"
  shows "2 powr of_int \<lfloor>log 2 x\<rfloor> \<le> x" and "x < 2 powr (of_int \<lfloor>log 2 x\<rfloor> + 1)"
proof -
  have "of_int \<lfloor>log 2 x\<rfloor> \<le> log 2 x" by simp
  then show "2 powr of_int \<lfloor>log 2 x\<rfloor> \<le> x"
    using assms by (simp add: powr_le_iff)
  have "log 2 x < of_int \<lfloor>log 2 x\<rfloor> + 1" by linarith
  then show "x < 2 powr (of_int \<lfloor>log 2 x\<rfloor> + 1)"
    using assms by (simp add: less_powr_iff)
qed

lemma floor_log2_eq:
  assumes "2 powr of_int k \<le> x" and "x < 2 powr (of_int k + 1)"
  shows "\<lfloor>log 2 x\<rfloor> = k"
proof -
  have pos: "0 < x" using assms(1) powr_gt_zero [of 2 "of_int k"] by linarith
  have "of_int k \<le> log 2 x" using assms(1) pos by (simp add: powr_le_iff)
  moreover have "log 2 x < of_int k + 1" using assms(2) pos by (simp add: less_powr_iff)
  ultimately show ?thesis by linarith
qed

lemma quantum_pos: "0 < quantum x"
  by (simp add: quantum_def)

lemma expo_mono:
  assumes "0 < x" and "x \<le> y"
  shows "expo x \<le> expo y"
proof -
  have "log 2 x \<le> log 2 y" using assms by simp
  then have "\<lfloor>log 2 x\<rfloor> \<le> \<lfloor>log 2 y\<rfloor>" by (rule floor_mono)
  then show ?thesis using assms by (simp add: expo_def)
qed

lemma nearest_le_pow:
  assumes "0 < x"
  shows "nearest x \<le> 2 powr (of_int (expo x) + 1)"
proof -
  have "x < 2 powr (of_int \<lfloor>log 2 x\<rfloor> + 1)"
    using assms by (rule floor_log2_bounds)
  also have "\<dots> \<le> 2 powr (of_int (expo x) + 1)"
    using assms by (simp add: expo_def)
  finally have "x / quantum x \<le> 2 powr (of_int (expo x) + 1) / quantum x"
    using quantum_pos [of x] by (simp add: divide_right_mono)
  also have "\<dots> = 2 powr 53"
    by (simp add: quantum_def powr_diff [symmetric])
  also have "\<dots> = of_int (2 ^ 53)"
    by (simp add: powr_numeral)
  finally have "round_ties_even (x / quantum x) \<le> 2 ^ 53"
    by (rule rte_le_int)
  then have "of_int (round_ties_even (x / quantum x)) \<le> (2 ^ 53 :: real)"
    using of_int_le_iff [of "round_ties_even (x / quantum x)" "2 ^ 53", where ?'a = real]
    by simp
  then have "nearest x \<le> quantum x * 2 ^ 53"
    unfolding nearest_def using quantum_pos [of x] by (simp add: mult_left_mono)
  also have "\<dots> = quantum x * 2 powr 53"
    by (simp add: powr_numeral)
  also have "\<dots> = 2 powr ((of_int (expo x) - 52) + 53)"
    unfolding quantum_def by (simp only: powr_add)
  also have "\<dots> = 2 powr (of_int (expo x) + 1)"
    by (rule arg_cong [where f = "(powr) 2"]) simp
  finally show ?thesis .
qed

lemma nearest_ge_pow:
  assumes "0 < x" and "- 1022 \<le> \<lfloor>log 2 x\<rfloor>"
  shows "2 powr of_int (expo x) \<le> nearest x"
proof -
  have e: "expo x = \<lfloor>log 2 x\<rfloor>"
    using assms by (simp add: expo_def)
  have "2 powr of_int (expo x) \<le> x"
    unfolding e using assms(1) by (rule floor_log2_bounds)
  then have "2 powr of_int (expo x) / quantum x \<le> x / quantum x"
    using quantum_pos [of x] by (simp add: divide_right_mono)
  moreover have "2 powr of_int (expo x) / quantum x = 2 powr 52"
    by (simp add: quantum_def powr_diff [symmetric])
  moreover have "2 powr 52 = (of_int (2 ^ 52) :: real)"
    by (simp add: powr_numeral)
  ultimately have "of_int (2 ^ 52) \<le> x / quantum x" by simp
  then have "2 ^ 52 \<le> round_ties_even (x / quantum x)"
    by (rule rte_ge_int)
  then have "(2 ^ 52 :: real) \<le> of_int (round_ties_even (x / quantum x))"
    using of_int_le_iff [of "2 ^ 52" "round_ties_even (x / quantum x)", where ?'a = real]
    by simp
  then have "quantum x * 2 ^ 52 \<le> nearest x"
    unfolding nearest_def using quantum_pos [of x] by (simp add: mult_left_mono)
  moreover have "quantum x * 2 ^ 52 = quantum x * 2 powr 52"
    by (simp add: powr_numeral)
  moreover have "quantum x * 2 powr 52 = 2 powr ((of_int (expo x) - 52) + 52)"
    unfolding quantum_def by (simp only: powr_add)
  moreover have "2 powr ((of_int (expo x) - 52) + 52) = 2 powr of_int (expo x)"
    by simp
  ultimately show ?thesis by simp
qed

lemma nearest_nonneg:
  assumes "0 \<le> x"
  shows "0 \<le> nearest x"
proof -
  have "0 \<le> x / quantum x" using assms quantum_pos [of x] by simp
  then have "0 \<le> round_ties_even (x / quantum x)"
    using rte_ge_int [of 0 "x / quantum x"] by simp
  then show ?thesis
    unfolding nearest_def using quantum_pos [of x] by simp
qed

lemma nearest_mono_pos:
  assumes "0 < x" and "x \<le> y"
  shows "nearest x \<le> nearest y"
proof (cases "expo x = expo y")
  case True
  then have q: "quantum x = quantum y" by (simp add: quantum_def)
  have "x / quantum y \<le> y / quantum y"
    using assms(2) quantum_pos [of y] by (simp add: divide_right_mono)
  then have "round_ties_even (x / quantum y) \<le> round_ties_even (y / quantum y)"
    by (rule rte_mono)
  then show ?thesis
    unfolding nearest_def q using quantum_pos [of y] by (simp add: mult_left_mono)
next
  case False
  have ypos: "0 < y" using assms by linarith
  from False expo_mono [OF assms] have lt: "expo x + 1 \<le> expo y" by simp
  have "- 1022 \<le> expo x" by (simp add: expo_def)
  with lt have "- 1022 < expo y" by simp
  then have fl: "- 1022 \<le> \<lfloor>log 2 y\<rfloor>"
    unfolding expo_def abs_of_pos [OF ypos] by linarith
  have "nearest x \<le> 2 powr (of_int (expo x) + 1)"
    using assms(1) by (rule nearest_le_pow)
  also have "\<dots> \<le> 2 powr of_int (expo y)"
    using lt by simp
  also have "\<dots> \<le> nearest y"
    using ypos fl by (rule nearest_ge_pow)
  finally show ?thesis .
qed

lemma to_number_pos:
  assumes "0 < x"
  shows "to_number x = (if 2 powr 1024 \<le> nearest x then Infinity else Num (nearest x))"
proof -
  have "0 \<le> nearest x" using assms by (simp add: nearest_nonneg)
  moreover have "(0::real) < 2 powr 1024" by simp
  ultimately have "\<not> nearest x \<le> - (2 powr 1024)" by linarith
  with assms show ?thesis by (simp add: to_number_def)
qed

lemma to_number_nonneg:
  assumes "0 \<le> x"
  shows "nonneg (to_number x)"
proof (cases "x = 0")
  case True
  then show ?thesis by (simp add: to_number_def)
next
  case False
  with assms have "0 < x" by simp
  then show ?thesis by (simp add: to_number_pos nearest_nonneg)
qed

lemma to_number_mono:
  assumes "0 \<le> x" and "x \<le> y"
  shows "le (to_number x) (to_number y)"
proof (cases "x = 0")
  case True
  have "nonneg (to_number y)" using assms by (intro to_number_nonneg) simp
  then have "le (Num 0) (to_number y)" by (cases "to_number y") simp_all
  with True show ?thesis by (simp add: to_number_def)
next
  case False
  with assms have x: "0 < x" and y: "0 < y" by simp_all
  have "nearest x \<le> nearest y" using x assms(2) by (rule nearest_mono_pos)
  then show ?thesis by (simp add: to_number_pos x y)
qed

lemma pow2_times_powr: "(2::real) ^ n * 2 powr r = 2 powr (of_nat n + r)"
  by (simp add: powr_add powr_realpow)

lemma to_number_exact:
  assumes "2 ^ 52 \<le> \<bar>m\<bar>" and "\<bar>m\<bar> < 2 ^ 53" and "- 1074 \<le> k" and "k \<le> 971"
  shows "to_number (of_int m * 2 powr of_int k) = Num (of_int m * 2 powr of_int k)"
proof -
  let ?x = "of_int m * 2 powr of_int k :: real"
  have ax: "\<bar>?x\<bar> = of_int \<bar>m\<bar> * 2 powr of_int k"
    by (simp add: abs_mult)
  have m1: "(2 ^ 52 :: real) \<le> of_int \<bar>m\<bar>"
    using assms(1) of_int_le_iff [of "2 ^ 52" "\<bar>m\<bar>", where ?'a = real] by simp
  have m2: "(of_int \<bar>m\<bar> :: real) < 2 ^ 53"
    using assms(2) of_int_less_iff [of "\<bar>m\<bar>" "2 ^ 53", where ?'a = real] by simp
  have "(2::real) powr (of_int (k + 52)) = 2 ^ 52 * 2 powr of_int k"
    using pow2_times_powr [of 52 "of_int k"] by (simp add: algebra_simps)
  also have "\<dots> \<le> \<bar>?x\<bar>"
    unfolding ax using m1 by (intro mult_right_mono) simp_all
  finally have lo: "(2::real) powr (of_int (k + 52)) \<le> \<bar>?x\<bar>" .
  have "\<bar>?x\<bar> < 2 ^ 53 * 2 powr of_int k"
    unfolding ax using m2 by (intro mult_strict_right_mono) simp_all
  also have "\<dots> = 2 powr (of_int (k + 52) + 1)"
    using pow2_times_powr [of 53 "of_int k"] by (simp add: algebra_simps)
  finally have hi: "\<bar>?x\<bar> < 2 powr (of_int (k + 52) + 1)" .
  have fl: "\<lfloor>log 2 \<bar>?x\<bar>\<rfloor> = k + 52"
    using lo hi by (rule floor_log2_eq)
  have e: "expo ?x = k + 52"
    using assms(3) by (simp add: expo_def fl)
  have q: "quantum ?x = 2 powr of_int k"
    by (simp add: quantum_def e)
  have n: "nearest ?x = ?x"
    by (simp add: nearest_def q rte_of_int)
  have nz: "?x \<noteq> 0"
    using assms(1) by auto
  have k971: "2 powr of_int k \<le> (2 powr 971 :: real)"
    by (rule powr_mono) (use assms(4) in simp_all)
  have "of_int \<bar>m\<bar> * 2 powr of_int k < (2 ^ 53 * 2 powr 971 :: real)"
    using m2 k971 by (rule mult_less_le_imp_less) simp_all
  then have "\<bar>?x\<bar> < 2 ^ 53 * 2 powr 971"
    unfolding ax .
  also have "\<dots> = 2 powr 1024"
    using pow2_times_powr [of 53 971] by simp
  finally have "\<bar>?x\<bar> < 2 powr 1024" .
  then have "\<not> 2 powr 1024 \<le> ?x" and "\<not> ?x \<le> - (2 powr 1024)"
    by linarith+
  with nz show ?thesis
    by (simp only: to_number_def n if_False)
qed

lemma two_powr_neg: "(2::real) powr (- of_nat n) = 1 / 2 ^ n"
  by (simp add: powr_minus powr_realpow divide_inverse)

lemma rte_below_half:
  assumes "of_int z \<le> r" and "r < of_int z + 1/2"
  shows "round_ties_even r = z"
proof -
  have "\<lfloor>r\<rfloor> = z" using assms by (intro floor_unique) simp_all
  with assms(2) show ?thesis by (simp add: round_ties_even_def)
qed

lemma to_number_near_3:
  assumes "0 \<le> t" and "t < 1 / 2 ^ 52"
  shows "to_number (t + 3) = Num 3"
proof -
  let ?x = "t + 3"
  have small: "t < 1" using assms(2) by (rule less_trans) simp
  have x: "0 < ?x" "\<bar>?x\<bar> = ?x" using assms(1) by simp_all
  have "\<lfloor>log 2 ?x\<rfloor> = 1"
    using assms(1) small by (intro floor_log2_eq) simp_all
  then have e: "expo ?x = 1" by (simp add: expo_def x)
  have q: "quantum ?x = 1 / 2 ^ 51"
    using two_powr_neg [of 51] by (simp add: quantum_def e)
  have d: "?x / quantum ?x = of_int (3 * 2 ^ 51) + t * 2 ^ 51"
    unfolding q by (simp add: algebra_simps)
  have "t * 2 ^ 51 < 1 / 2 ^ 52 * 2 ^ 51"
    using assms(2) by (intro mult_strict_right_mono) simp_all
  then have "t * 2 ^ 51 < 1 / 2" by simp
  moreover have "0 \<le> t * 2 ^ 51" using assms(1) by simp
  ultimately have "round_ties_even (?x / quantum ?x) = 3 * 2 ^ 51"
    unfolding d by (intro rte_below_half) simp_all
  then have n: "nearest ?x = 3"
    by (simp add: nearest_def q)
  show ?thesis
    using x(1) by (simp add: to_number_pos n)
qed

lemma to_number_dyadic:
  assumes "2 ^ 52 \<le> \<bar>m\<bar>" and "\<bar>m\<bar> < 2 ^ 53" and "j \<le> 1074"
  shows "to_number (of_int m / 2 ^ j) = Num (of_int m / 2 ^ j)"
proof -
  have "(2::real) powr of_int (- int j) = 1 / 2 ^ j"
    using two_powr_neg [of j] by simp
  then have "of_int m * 2 powr of_int (- int j) = (of_int m / 2 ^ j :: real)"
    by simp
  moreover have "to_number (of_int m * 2 powr of_int (- int j))
                 = Num (of_int m * 2 powr of_int (- int j))"
    using assms by (intro to_number_exact) simp_all
  ultimately show ?thesis by simp
qed

lemma le_Infinity: "nonneg u \<Longrightarrow> le u Infinity"
  by (cases u) simp_all

lemma divide_const_mono:
  assumes "nonneg u" and "le u v" and "0 < c"
  shows "le (divide_const u c) (divide_const v c)" and "nonneg (divide_const u c)"
  using assms
  by (cases u; cases v; simp add: to_number_mono to_number_nonneg le_Infinity divide_right_mono)+

lemma times_const_mono:
  assumes "nonneg u" and "le u v" and "0 < c"
  shows "le (times_const u c) (times_const v c)" and "nonneg (times_const u c)"
  using assms
  by (cases u; cases v; simp add: to_number_mono to_number_nonneg le_Infinity mult_right_mono)+

lemma plus_const_mono:
  assumes "nonneg u" and "le u v" and "0 < c"
  shows "le (plus_const u c) (plus_const v c)" and "nonneg (plus_const u c)"
  using assms
  by (cases u; cases v; simp add: to_number_mono to_number_nonneg le_Infinity)+

lemma Math_sqrt_mono:
  assumes "nonneg u" and "le u v"
  shows "le (Math_sqrt u) (Math_sqrt v)" and "nonneg (Math_sqrt u)"
  using assms
  by (cases u; cases v; simp add: to_number_mono to_number_nonneg le_Infinity)+

lemma radius_of_amount_mono:
  assumes "nonneg u" and "le u v"
  shows "le (radius_of_amount u) (radius_of_amount v)"
proof -
  note d = divide_const_mono [OF assms, of 5000, simplified]
  note s = Math_sqrt_mono [OF d(2) d(1)]
  note t = times_const_mono [OF s(2) s(1), of 4, simplified]
  note p = plus_const_mono [OF t(2) t(1), of 3, simplified]
  from p(1) show ?thesis by (simp add: radius_of_amount_def)
qed

lemma nodeRadius_claim:
  "node_type d = Claim \<Longrightarrow> nodeRadius d = radius_of_amount (or_zero (node_claimAmount d))"
  by (simp add: nodeRadius_def radius_of_amount_def)

lemma nodeRadius_amount_node:
  "nodeRadius (amount_node v) = radius_of_amount (or_zero (Some v))"
  by (simp add: nodeRadius_def radius_of_amount_def amount_node_def claim_node_def)

lemma to_number_0: "to_number 0 = Num 0"
  by (simp add: to_number_def)

lemma to_number_1: "to_number 1 = Num 1"
  using to_number_dyadic [of "2 ^ 52" 52] by simp

lemma to_number_2: "to_number 2 = Num 2"
  using to_number_dyadic [of "2 ^ 53 - 2 ^ 52" 51] by simp

lemma to_number_3: "to_number 3 = Num 3"
  using to_number_dyadic [of "3 * 2 ^ 51" 51] by simp

lemma to_number_4: "to_number 4 = Num 4"
  using to_number_dyadic [of "2 ^ 52" 50] by simp

lemma to_number_7: "to_number 7 = Num 7"
  using to_number_dyadic [of "7 * 2 ^ 50" 50] by simp

lemma to_number_8: "to_number 8 = Num 8"
  using to_number_dyadic [of "2 ^ 52" 49] by simp

lemma to_number_11: "to_number 11 = Num 11"
  using to_number_dyadic [of "11 * 2 ^ 49" 49] by simp

lemma to_number_minus_1: "to_number (- 1) = Num (- 1)"
  using to_number_dyadic [of "- (2 ^ 52)" 52] by simp

lemma to_number_pow2_neg:
  assumes "n \<le> 1022"
  shows "to_number (1 / 2 ^ n) = Num (1 / 2 ^ n)"
proof -
  have "(of_int (2 ^ 52) / 2 ^ (n + 52) :: real) = 1 / 2 ^ n"
    by (simp add: power_add)
  moreover have "to_number (of_int (2 ^ 52) / 2 ^ (n + 52)) = Num (of_int (2 ^ 52) / 2 ^ (n + 52))"
    using assms by (intro to_number_dyadic) simp_all
  ultimately show ?thesis by simp
qed

lemma sqrt_pow2_neg: "sqrt (1 / 2 ^ (2 * n)) = 1 / 2 ^ n"
proof (rule real_sqrt_unique)
  have "((2::real) ^ n) ^ 2 = 2 ^ (2 * n)"
    by (simp add: power_mult [symmetric] mult.commute)
  then show "(1 / 2 ^ n)\<^sup>2 = (1 / 2 ^ (2 * n) :: real)"
    by (simp add: power_divide)
  show "(0::real) \<le> 1 / 2 ^ n" by simp
qed

lemma radius_0: "radius_of_amount (Num 0) = Num 3"
  by (simp add: radius_of_amount_def to_number_0 to_number_3)

lemma radius_5000: "radius_of_amount (Num 5000) = Num 7"
  by (simp add: radius_of_amount_def to_number_1 to_number_4 to_number_7)

lemma radius_20000: "radius_of_amount (Num 20000) = Num 11"
proof -
  have "sqrt 4 = 2" by (rule real_sqrt_unique) simp_all
  then show ?thesis
    by (simp add: radius_of_amount_def to_number_4 to_number_2 to_number_8 to_number_11)
qed

lemma radius_minus_5000: "radius_of_amount (Num (- 5000)) = NaN"
  by (simp add: radius_of_amount_def to_number_minus_1)

lemma radius_tiny:
  assumes "98 \<le> n" and "n \<le> 500"
  shows "radius_of_amount (Num (5000 / 2 ^ (2 * n))) = Num 3"
proof -
  have "(5000 / 2 ^ (2 * n) / 5000 :: real) = 1 / 2 ^ (2 * n)" by simp
  moreover have "to_number (1 / 2 ^ (2 * n)) = Num (1 / 2 ^ (2 * n))"
    using assms by (intro to_number_pow2_neg) simp
  ultimately have a: "divide_const (Num (5000 / 2 ^ (2 * n))) 5000 = Num (1 / 2 ^ (2 * n))"
    by (simp only: divide_const.simps)
  have "to_number (1 / 2 ^ n) = Num (1 / 2 ^ n)"
    using assms by (intro to_number_pow2_neg) simp
  moreover have "\<not> (1 / 2 ^ (2 * n) :: real) < 0" by simp
  ultimately have b: "Math_sqrt (Num (1 / 2 ^ (2 * n))) = Num (1 / 2 ^ n)"
    by (simp only: Math_sqrt.simps sqrt_pow2_neg if_False)
  define k where "k = n - 2"
  have k: "n = k + 2" using assms(1) by (simp add: k_def)
  have "(1 / 2 ^ n * 4 :: real) = 1 / 2 ^ k" by (simp add: k power_add)
  moreover have "to_number (1 / 2 ^ k) = Num (1 / 2 ^ k)"
    using assms k by (intro to_number_pow2_neg) simp
  ultimately have c: "times_const (Num (1 / 2 ^ n)) 4 = Num (1 / 2 ^ k)"
    by (simp only: times_const.simps)
  have "52 < k" using assms k by simp
  then have "(2::real) ^ 52 < 2 ^ k"
    by (rule power_strict_increasing) simp
  then have "(1 / 2 ^ k :: real) < 1 / 2 ^ 52"
    by (rule divide_strict_left_mono) simp_all
  moreover have "(0::real) \<le> 1 / 2 ^ k" by simp
  ultimately have "to_number (1 / 2 ^ k + 3) = Num 3"
    by (intro to_number_near_3)
  then have d: "plus_const (Num (1 / 2 ^ k)) 3 = Num 3"
    by (simp only: plus_const.simps)
  show ?thesis
    by (simp only: radius_of_amount_def a b c d)
qed

lemma rte_error: "\<bar>of_int (round_ties_even r) - r\<bar> \<le> 1 / 2"
proof -
  have "of_int \<lfloor>r\<rfloor> \<le> r" and "r < of_int \<lfloor>r\<rfloor> + 1" by linarith+
  then show ?thesis
    by (auto simp: round_ties_even_def Let_def)
qed

lemma nearest_error: "\<bar>nearest x - x\<bar> \<le> quantum x / 2"
proof -
  let ?q = "quantum x"
  have q: "0 < ?q" by (rule quantum_pos)
  have "nearest x - x = ?q * (of_int (round_ties_even (x / ?q)) - x / ?q)"
    using q by (simp add: nearest_def algebra_simps)
  then have "\<bar>nearest x - x\<bar> = ?q * \<bar>of_int (round_ties_even (x / ?q)) - x / ?q\<bar>"
    using q by (simp add: abs_mult)
  also have "\<dots> \<le> ?q * (1 / 2)"
    using q rte_error [of "x / ?q"] by (intro mult_left_mono) simp_all
  finally show ?thesis by simp
qed

lemma quantum_le_rel:
  assumes "1 / 2 ^ 1022 \<le> x"
  shows "quantum x \<le> x / 2 ^ 52"
proof -
  have pos: "0 < x" using assms by (rule less_le_trans [rotated]) simp
  have "2 powr (- of_nat 1022) \<le> x"
    using assms by (simp only: two_powr_neg)
  then have "- of_nat 1022 \<le> log 2 x"
    using pos by (simp add: le_log_iff)
  then have "- 1022 \<le> \<lfloor>log 2 x\<rfloor>" by (simp add: le_floor_iff)
  then have e: "expo x = \<lfloor>log 2 x\<rfloor>"
    using pos by (simp add: expo_def)
  have "quantum x = 2 powr (of_int \<lfloor>log 2 x\<rfloor> + - of_nat 52)"
    by (simp add: quantum_def e)
  also have "\<dots> = 2 powr of_int \<lfloor>log 2 x\<rfloor> * (1 / 2 ^ 52)"
    by (simp only: powr_add two_powr_neg)
  also have "\<dots> \<le> x * (1 / 2 ^ 52)"
    using floor_log2_bounds(1) [OF pos] by (intro mult_right_mono) simp_all
  finally show ?thesis by simp
qed

lemma to_number_rel:
  assumes "1 / 2 ^ 1022 \<le> x" and "x \<le> 2 ^ 1000"
  obtains r where "to_number x = Num r"
    and "x * (1 - 1 / 2 ^ 53) \<le> r" and "r \<le> x * (1 + 1 / 2 ^ 53)"
proof -
  have pos: "0 < x" using assms(1) by (rule less_le_trans [rotated]) simp
  have "\<bar>nearest x - x\<bar> \<le> quantum x / 2" by (rule nearest_error)
  moreover have "quantum x / 2 \<le> x / 2 ^ 52 / 2"
    using quantum_le_rel [OF assms(1)] by simp
  ultimately have e: "\<bar>nearest x - x\<bar> \<le> x / 2 ^ 53" by simp
  then have e1: "x - x / 2 ^ 53 \<le> nearest x" and e2: "nearest x \<le> x + x / 2 ^ 53"
    by linarith+
  have lo: "x * (1 - 1 / 2 ^ 53) \<le> nearest x"
    using e1 by (simp add: algebra_simps)
  have hi: "nearest x \<le> x * (1 + 1 / 2 ^ 53)"
    using e2 by (simp add: algebra_simps)
  have "x * (1 + 1 / 2 ^ 53) \<le> 2 ^ 1000 * (1 + 1 / 2 ^ 53)"
    using assms(2) by (intro mult_right_mono) simp_all
  also have "\<dots> < (2 ^ 1024 :: real)" by simp
  finally have "nearest x < 2 ^ 1024" using hi by linarith
  moreover have "(2 powr 1024 :: real) = 2 ^ 1024"
    using powr_realpow [of 2 1024] by simp
  ultimately have "\<not> 2 powr 1024 \<le> nearest x" by simp
  then have "to_number x = Num (nearest x)"
    using pos by (simp only: to_number_pos if_False)
  then show ?thesis using lo hi by (rule that)
qed

lemma sqrt_scaled_bounds:
  assumes "0 \<le> x" and "x * d \<le> y" and "y \<le> x * c"
    and "0 \<le> d" and "d \<le> 1" and "1 \<le> c"
  shows "sqrt x * d \<le> sqrt y" and "sqrt y \<le> sqrt x * c"
proof -
  have "d\<^sup>2 \<le> d" using assms(4,5) by (simp add: power2_eq_square mult_left_le)
  then have "d \<le> sqrt d" by (rule real_le_rsqrt)
  then have "sqrt x * d \<le> sqrt x * sqrt d"
    using assms(1) by (intro mult_left_mono) simp_all
  also have "\<dots> = sqrt (x * d)" by (simp add: real_sqrt_mult)
  also have "\<dots> \<le> sqrt y" using assms(2) by simp
  finally show "sqrt x * d \<le> sqrt y" .
  have "c \<le> c\<^sup>2" using assms(6) by (simp add: power2_eq_square)
  then have "sqrt c \<le> c" using assms(6) by (intro real_le_lsqrt) simp_all
  have "sqrt y \<le> sqrt (x * c)" using assms(3) by simp
  also have "\<dots> = sqrt x * sqrt c" by (simp add: real_sqrt_mult)
  also have "\<dots> \<le> sqrt x * c"
    using \<open>sqrt c \<le> c\<close> assms(1) by (intro mult_left_mono) simp_all
  finally show "sqrt y \<le> sqrt x * c" .
qed

lemma radius_rel:
  assumes lo: "5000 / 2 ^ 196 \<le> a" and hi: "a \<le> 2 ^ 900"
  obtains r where "radius_of_amount (Num a) = Num r"
    and "exact_radius a * (1 - 1 / 2 ^ 50) \<le> r" and "r \<le> exact_radius a * (1 + 1 / 2 ^ 50)"
proof -
  define c :: real where "c = 1 + 1 / 2 ^ 53"
  define d :: real where "d = 1 - 1 / 2 ^ 53"
  define x1 where "x1 = a / 5000"
  define s where "s = sqrt x1"
  have c1: "1 \<le> c" and c0: "0 \<le> c" and c2: "c \<le> 2"
    and d0: "0 \<le> d" and d1: "d \<le> 1" and dh: "1 / 2 \<le> d"
    by (simp_all add: c_def d_def)
  have apos: "0 \<le> a" using lo by (rule order_trans [rotated]) simp
  have x1lo: "1 / 2 ^ 196 \<le> x1" using lo by (simp add: x1_def)
  have x1hi: "x1 \<le> 2 ^ 900"
  proof -
    have "x1 \<le> a" using apos by (simp add: x1_def)
    with hi show ?thesis by simp
  qed
  have x1pos: "0 \<le> x1" using apos by (simp add: x1_def)
  have s0: "0 \<le> s" by (simp add: s_def x1pos)
  \<comment> \<open>the division\<close>
  have "(1 / 2 ^ 1022 :: real) \<le> 1 / 2 ^ 196" by simp
  with x1lo have "1 / 2 ^ 1022 \<le> x1" by linarith
  moreover have "x1 \<le> 2 ^ 1000" using x1hi by (rule order_trans) simp
  ultimately obtain r1 where r1: "to_number x1 = Num r1" "x1 * d \<le> r1" "r1 \<le> x1 * c"
    unfolding c_def d_def by (rule to_number_rel)
  have "1 / 2 ^ 196 * (1 / 2) \<le> x1 * d"
    using x1lo dh by (intro mult_mono) simp_all
  with r1(2) have r1lo: "1 / 2 ^ 197 \<le> r1" by simp
  have "x1 * c \<le> 2 ^ 900 * 2"
    using x1hi c2 x1pos c0 by (intro mult_mono) simp_all
  with r1(3) have r1hi: "r1 \<le> 2 ^ 901" by simp
  have r1pos: "0 \<le> r1" using r1lo by (rule order_trans [rotated]) simp
  \<comment> \<open>the root\<close>
  define x2 where "x2 = sqrt r1"
  have "(1 / 2 ^ 99 :: real)\<^sup>2 \<le> 1 / 2 ^ 197" by (simp add: power_divide)
  with r1lo have "(1 / 2 ^ 99 :: real)\<^sup>2 \<le> r1" by linarith
  then have x2lo: "1 / 2 ^ 99 \<le> x2" unfolding x2_def by (rule real_le_rsqrt)
  have "(2 ^ 901 :: real) \<le> (2 ^ 451)\<^sup>2" by simp
  with r1hi have "r1 \<le> (2 ^ 451 :: real)\<^sup>2" by linarith
  then have x2hi: "x2 \<le> 2 ^ 451" unfolding x2_def by (intro real_le_lsqrt) simp_all
  have x2s: "s * d \<le> x2" "x2 \<le> s * c"
    unfolding s_def x2_def using x1pos r1(2,3) d0 d1 c1 by (rule sqrt_scaled_bounds)+
  have "(1 / 2 ^ 1022 :: real) \<le> 1 / 2 ^ 99" by simp
  with x2lo have "1 / 2 ^ 1022 \<le> x2" by linarith
  moreover have "x2 \<le> 2 ^ 1000" using x2hi by (rule order_trans) simp
  ultimately obtain r2 where r2: "to_number x2 = Num r2" "x2 * d \<le> r2" "r2 \<le> x2 * c"
    unfolding c_def d_def by (rule to_number_rel)
  have x2pos: "0 \<le> x2" by (simp add: x2_def r1pos)
  have "1 / 2 ^ 99 * (1 / 2) \<le> x2 * d"
    using x2lo dh by (intro mult_mono) simp_all
  with r2(2) have r2lo: "1 / 2 ^ 100 \<le> r2" by simp
  have "x2 * c \<le> 2 ^ 451 * 2"
    using x2hi c2 x2pos c0 by (intro mult_mono) simp_all
  with r2(3) have r2hi: "r2 \<le> 2 ^ 452" by simp
  \<comment> \<open>the product\<close>
  define x3 where "x3 = r2 * 4"
  have x3lo: "1 / 2 ^ 98 \<le> x3" using r2lo by (simp add: x3_def)
  have x3hi: "x3 \<le> 2 ^ 454" using r2hi by (simp add: x3_def)
  have x3pos: "0 \<le> x3" using x3lo by (rule order_trans [rotated]) simp
  have "(1 / 2 ^ 1022 :: real) \<le> 1 / 2 ^ 98" by simp
  with x3lo have "1 / 2 ^ 1022 \<le> x3" by linarith
  moreover have "x3 \<le> 2 ^ 1000" using x3hi by (rule order_trans) simp
  ultimately obtain r3 where r3: "to_number x3 = Num r3" "x3 * d \<le> r3" "r3 \<le> x3 * c"
    unfolding c_def d_def by (rule to_number_rel)
  have "0 \<le> x3 * d" using x3pos d0 by simp
  with r3(2) have r3pos: "0 \<le> r3" by linarith
  have "x3 * c \<le> 2 ^ 454 * 2"
    using x3hi c2 x3pos c0 by (intro mult_mono) simp_all
  with r3(3) have r3hi: "r3 \<le> 2 ^ 455" by simp
  \<comment> \<open>the sum\<close>
  define x4 where "x4 = r3 + 3"
  have x4lo: "3 \<le> x4" using r3pos by (simp add: x4_def)
  have x4hi: "x4 \<le> 2 ^ 456" using r3hi by (simp add: x4_def)
  have "1 / 2 ^ 1022 \<le> x4" using x4lo by (rule order_trans [rotated]) simp
  moreover have "x4 \<le> 2 ^ 1000" using x4hi by (rule order_trans) simp
  ultimately obtain r4 where r4: "to_number x4 = Num r4" "x4 * d \<le> r4" "r4 \<le> x4 * c"
    unfolding c_def d_def by (rule to_number_rel)
  \<comment> \<open>the value\<close>
  have "\<not> r1 < 0" using r1pos by simp
  then have val: "radius_of_amount (Num a) = Num r4"
    by (simp add: radius_of_amount_def x1_def [symmetric] r1(1) x2_def [symmetric] r2(1)
        x3_def [symmetric] r3(1) x4_def [symmetric] r4(1))
  \<comment> \<open>the upper bound\<close>
  have "r2 \<le> s * c * c"
    using r2(3) x2s(2) c0 by (meson mult_right_mono order_trans)
  then have "x3 \<le> 4 * s * c * c" by (simp add: x3_def)
  then have "x3 * c \<le> 4 * s * c * c * c" using c0 by (rule mult_right_mono)
  with r3(3) have "r3 \<le> 4 * s * c * c * c" by linarith
  then have "x4 \<le> 4 * s * c * c * c + 3" by (simp add: x4_def)
  then have "x4 * c \<le> (4 * s * c * c * c + 3) * c" using c0 by (rule mult_right_mono)
  with r4(3) have up: "r4 \<le> 4 * s * c ^ 4 + 3 * c"
    by (simp add: algebra_simps power4_eq_xxxx)
  have "c \<le> c ^ 4" using c1 by (rule self_le_power) simp
  then have "4 * s * c ^ 4 + 3 * c \<le> (4 * s + 3) * c ^ 4"
    by (simp add: algebra_simps)
  moreover have "c ^ 4 \<le> 1 + 1 / 2 ^ 50" by (simp add: c_def power_divide)
  then have "(4 * s + 3) * c ^ 4 \<le> (4 * s + 3) * (1 + 1 / 2 ^ 50)"
    using s0 by (intro mult_left_mono) simp_all
  ultimately have upper: "r4 \<le> (4 * s + 3) * (1 + 1 / 2 ^ 50)"
    using up by linarith
  \<comment> \<open>the lower bound\<close>
  have "s * d * d \<le> r2"
    using r2(2) x2s(1) d0 by (meson mult_right_mono order_trans)
  then have "4 * s * d * d \<le> x3" by (simp add: x3_def)
  then have "4 * s * d * d * d \<le> x3 * d" using d0 by (rule mult_right_mono)
  with r3(2) have "4 * s * d * d * d \<le> r3" by linarith
  then have "4 * s * d * d * d + 3 \<le> x4" by (simp add: x4_def)
  then have "(4 * s * d * d * d + 3) * d \<le> x4 * d" using d0 by (rule mult_right_mono)
  with r4(2) have dn: "4 * s * d ^ 4 + 3 * d \<le> r4"
    by (simp add: algebra_simps power4_eq_xxxx)
  have "d ^ 4 \<le> d" using d0 d1 by (simp add: power_le_one_iff power_decreasing [of 1 4 d, simplified])
  then have "(4 * s + 3) * d ^ 4 \<le> 4 * s * d ^ 4 + 3 * d"
    by (simp add: algebra_simps)
  moreover have "1 - 1 / 2 ^ 50 \<le> d ^ 4" by (simp add: d_def power_divide)
  then have "(4 * s + 3) * (1 - 1 / 2 ^ 50) \<le> (4 * s + 3) * d ^ 4"
    using s0 by (intro mult_left_mono) simp_all
  ultimately have lower: "(4 * s + 3) * (1 - 1 / 2 ^ 50) \<le> r4"
    using dn by linarith
  have R: "exact_radius a = 4 * s + 3"
    by (simp add: exact_radius_def s_def x1_def)
  show ?thesis
    using val lower upper unfolding R [symmetric] by (rule that)
qed

lemma close_to_Num:
  assumes "close_to v x tol"
  obtains r where "v = Num r" and "\<bar>r - x\<bar> \<le> tol"
  using assms by (cases v) simp_all

lemma exact_radius_ge_3: "0 \<le> a \<Longrightarrow> 3 \<le> exact_radius a"
  by (simp add: exact_radius_def)

lemma radius_flat:
  assumes "0 \<le> a" and "a \<le> 5000 / 2 ^ 196"
  shows "radius_of_amount (Num a) = Num 3"
proof -
  have top: "radius_of_amount (Num (5000 / 2 ^ 196)) = Num 3"
    using radius_tiny [of 98] by simp
  have "le (radius_of_amount (Num 0)) (radius_of_amount (Num a))"
    using assms(1) by (intro radius_of_amount_mono) simp_all
  then have l: "le (Num 3) (radius_of_amount (Num a))"
    by (simp only: radius_0)
  have "le (radius_of_amount (Num a)) (radius_of_amount (Num (5000 / 2 ^ 196)))"
    using assms by (intro radius_of_amount_mono) simp_all
  then have u: "le (radius_of_amount (Num a)) (Num 3)"
    by (simp only: top)
  from l u show ?thesis
    by (cases "radius_of_amount (Num a)") simp_all
qed

lemma radius_close:
  assumes "0 \<le> a" and "a \<le> 2 ^ 900"
  shows "close_to (radius_of_amount (Num a)) (exact_radius a) (exact_radius a / 2 ^ 50)"
proof (cases "a \<le> 5000 / 2 ^ 196")
  case True
  have v: "radius_of_amount (Num a) = Num 3"
    using assms(1) True by (rule radius_flat)
  have "a / 5000 \<le> 1 / 2 ^ (2 * 98)" using True by simp
  then have "sqrt (a / 5000) \<le> sqrt (1 / 2 ^ (2 * 98))" by (simp only: real_sqrt_le_iff)
  then have s: "sqrt (a / 5000) \<le> 1 / 2 ^ 98" by (simp only: sqrt_pow2_neg)
  have s0: "0 \<le> sqrt (a / 5000)" using assms(1) by simp
  have "(4 / 2 ^ 98 :: real) \<le> 3 / 2 ^ 50" by simp
  with s s0 have "\<bar>3 - exact_radius a\<bar> \<le> exact_radius a / 2 ^ 50"
    unfolding exact_radius_def by (simp add: field_simps)
  then show ?thesis by (simp add: v)
next
  case False
  then have lo: "5000 / 2 ^ 196 \<le> a" by simp
  from lo assms(2) obtain r where r: "radius_of_amount (Num a) = Num r"
    "exact_radius a * (1 - 1 / 2 ^ 50) \<le> r" "r \<le> exact_radius a * (1 + 1 / 2 ^ 50)"
    by (rule radius_rel)
  from r(2) have "exact_radius a - exact_radius a / 2 ^ 50 \<le> r"
    by (simp add: algebra_simps)
  moreover from r(3) have "r \<le> exact_radius a + exact_radius a / 2 ^ 50"
    by (simp add: algebra_simps)
  ultimately have "\<bar>r - exact_radius a\<bar> \<le> exact_radius a / 2 ^ 50"
    by linarith
  then show ?thesis by (simp add: r(1))
qed

lemma radius_strict_separated:
  assumes "0 \<le> a" and "a \<le> 2 ^ 900" and "0 \<le> b" and "b \<le> 2 ^ 900"
    and sep: "exact_radius a * (1 + 1 / 2 ^ 48) \<le> exact_radius b"
  shows "gt (radius_of_amount (Num b)) (radius_of_amount (Num a))"
proof -
  obtain ra where ra: "radius_of_amount (Num a) = Num ra"
      "\<bar>ra - exact_radius a\<bar> \<le> exact_radius a / 2 ^ 50"
    using radius_close [OF assms(1,2)] by (rule close_to_Num)
  obtain rb where rb: "radius_of_amount (Num b) = Num rb"
      "\<bar>rb - exact_radius b\<bar> \<le> exact_radius b / 2 ^ 50"
    using radius_close [OF assms(3,4)] by (rule close_to_Num)
  have Ra: "3 \<le> exact_radius a" using assms(1) by (rule exact_radius_ge_3)
  have u: "ra \<le> exact_radius a + exact_radius a / 2 ^ 50" using ra(2) by linarith
  have l: "exact_radius b - exact_radius b / 2 ^ 50 \<le> rb" using rb(2) by linarith
  have "exact_radius a + exact_radius a / 2 ^ 50
        < exact_radius a * (1 + 1 / 2 ^ 48) - exact_radius a * (1 + 1 / 2 ^ 48) / 2 ^ 50"
    using Ra by (simp add: field_simps)
  also have "\<dots> \<le> exact_radius b - exact_radius b / 2 ^ 50"
    using sep by (simp add: field_simps)
  finally have "ra < rb" using u l by linarith
  then show ?thesis by (simp add: ra(1) rb(1))
qed

lemma radius_strict_cents:
  assumes "0 \<le> a" and "a + 1 / 100 \<le> b" and "b \<le> 10 ^ 9"
  shows "gt (radius_of_amount (Num b)) (radius_of_amount (Num a))"
proof -
  define sa where "sa = sqrt (a / 5000)"
  define sb where "sb = sqrt (b / 5000)"
  have b0: "0 \<le> b" using assms(1,2) by linarith
  have sa0: "0 \<le> sa" using assms(1) by (simp add: sa_def)
  have "a / 5000 \<le> b / 5000" using assms(2) by simp
  then have le: "sa \<le> sb" by (simp add: sa_def sb_def)
  have "b / 5000 \<le> 448\<^sup>2" using assms(3) by simp
  then have sb448: "sb \<le> 448" unfolding sb_def by (intro real_le_lsqrt) simp_all
  have "sb * sb - sa * sa = b / 5000 - a / 5000"
    using assms(1) b0 by (simp add: sa_def sb_def)
  moreover have "1 / 500000 \<le> b / 5000 - a / 5000" using assms(2) by simp
  moreover have "(sb - sa) * (sb + sa) = sb * sb - sa * sa" by (simp add: algebra_simps)
  moreover have "(sb - sa) * (sb + sa) \<le> (sb - sa) * 896"
    using le sb448 sa0 by (intro mult_left_mono) simp_all
  ultimately have gap: "1 / 500000 \<le> (sb - sa) * 896" by linarith
  have Ra: "exact_radius a = 4 * sa + 3" and Rb: "exact_radius b = 4 * sb + 3"
    by (simp_all add: exact_radius_def sa_def sb_def)
  have "(4 * sa + 3) * (1 + 1 / 2 ^ 48) \<le> 4 * sb + 3"
    using gap le sb448 sa0 by (simp add: field_simps)
  then have sep: "exact_radius a * (1 + 1 / 2 ^ 48) \<le> exact_radius b"
    by (simp only: Ra Rb)
  have "(10 ^ 9 :: real) \<le> 2 ^ 900" by simp
  then have "b \<le> 2 ^ 900" and "a \<le> 2 ^ 900" using assms by linarith+
  with assms(1) b0 sep show ?thesis by (intro radius_strict_separated)
qed

section \<open>The claims\<close>

text \<open>C1, as stated, fails: two records that share the primary key \<open>K1\<close> give one claim
  node, not \<open>min 2 200 = 2\<close>.\<close>

theorem claim_node_count_counterexample:
  "length (nodes_of_kind Claim (buildGraphData (claims_of duplicate_claims)))
   \<noteq> min (length duplicate_claims) 200"
  by (simp add: build_defs duplicate_claims_def)

text \<open>C1 (amended): the claim nodes are keyed by \<open>"claim-" + primaryKey\<close> in a
  last-write-wins map, so their number is the number of distinct primary keys among the
  first 200 records; it is \<open>min (length records) 200\<close> exactly when those primary keys are
  pairwise distinct. The node of a primary key is built from the last of those records that
  has the key.\<close>

theorem claim_node_count:
  "length (nodes_of_kind Claim (buildGraphData (claims_of objs)))
     = card (primaryKey ` set (take 200 objs))
   \<and> (length (nodes_of_kind Claim (buildGraphData (claims_of objs))) = min (length objs) 200)
     = distinct (map primaryKey (take 200 objs))
   \<and> distinct (map node_id (nodes_of_kind Claim (buildGraphData (claims_of objs))))
   \<and> set (map node_id (nodes_of_kind Claim (buildGraphData (claims_of objs))))
     = (\<lambda>c. ''claim-'' @ primaryKey c) ` set (take 200 objs)
   \<and> set (nodes_of_kind Claim (buildGraphData (claims_of objs)))
     = (\<lambda>c. claim_node (last_with_key (take 200 objs) c)) ` set (take 200 objs)"
proof -
  let ?cn = "nodes_of_kind Claim (buildGraphData (claims_of objs))"
  have n: "length ?cn = card (primaryKey ` set (take 200 objs))"
    by (rule count_claim_nodes)
  have "(card (primaryKey ` set (take 200 objs)) = length (take 200 objs))
        = distinct (map primaryKey (take 200 objs))"
    by (rule card_image_eq_length_iff)
  then have m: "(length ?cn = min (length objs) 200) = distinct (map primaryKey (take 200 objs))"
    by (simp add: n)
  have ids: "map node_id ?cn = map fst (add_claims (take 200 objs) [])"
  proof (cases "objs = []")
    case True
    then show ?thesis by (simp add: nodes_of_kind_def nodes_empty add_claims_Nil)
  next
    case False
    then have "?cn = map snd (add_claims (take 200 objs) [])"
      by (rule claim_nodes_nonempty)
    then show ?thesis by (simp only: map_node_id_add_claims)
  qed
  have d: "distinct (map node_id ?cn)"
    unfolding ids by (rule add_claims_distinct) simp
  have "set (map fst (add_claims (take 200 objs) [])) = claim_key ` set (take 200 objs)"
    by (simp add: add_claims_keys)
  then have s: "set (map node_id ?cn) = (\<lambda>c. ''claim-'' @ primaryKey c) ` set (take 200 objs)"
    unfolding ids by (simp add: claim_key_def [abs_def])
  have w: "set ?cn = (\<lambda>c. claim_node (last_with_key (take 200 objs) c)) ` set (take 200 objs)"
    by (rule claim_nodes_set)
  from n m d s w show ?thesis by blast
qed

text \<open>C2, as stated, fails on the empty list: the builder returns before it adds the
  agents, so there is no agent node.\<close>

theorem agent_nodes_counterexample:
  "length (nodes_of_kind Agent (buildGraphData (claims_of []))) \<noteq> 3"
  by (simp add: nodes_of_kind_def nodes_empty)

text \<open>C2 (amended): for every non-empty input list the builder produces exactly three
  agent nodes, the same for every such input, with agent identifiers \<open>AGENT_0\<close>,
  \<open>AGENT_1\<close>, \<open>AGENT_2\<close> and node identifiers \<open>agent-AGENT_0\<close>, \<open>agent-AGENT_1\<close>,
  \<open>agent-AGENT_2\<close>.\<close>

theorem agent_nodes_fixed:
  assumes "objs \<noteq> []"
  shows "nodes_of_kind Agent (buildGraphData (claims_of objs))
           = map agent_node [''AGENT_0'', ''AGENT_1'', ''AGENT_2'']
         \<and> length (nodes_of_kind Agent (buildGraphData (claims_of objs))) = 3
         \<and> map node_agentId (nodes_of_kind Agent (buildGraphData (claims_of objs)))
           = [Some ''AGENT_0'', Some ''AGENT_1'', Some ''AGENT_2'']
         \<and> map node_id (nodes_of_kind Agent (buildGraphData (claims_of objs)))
           = [''agent-AGENT_0'', ''agent-AGENT_1'', ''agent-AGENT_2'']"
  by (simp add: agent_nodes_nonempty [OF assms] agent_node_def)

theorem agent_nodes_fixed_witness:
  "sample_claims \<noteq> []
   \<and> map node_agentId (nodes_of_kind Agent (buildGraphData (claims_of sample_claims)))
     = [Some ''AGENT_0'', Some ''AGENT_1'', Some ''AGENT_2'']
   \<and> length (nodes_of_kind Agent (buildGraphData (claims_of sample_claims))) = 3"
proof -
  have ne: "sample_claims \<noteq> []" by (simp add: sample_claims_def)
  from agent_nodes_fixed [OF ne] ne show ?thesis by blast
qed

text \<open>C3: on an absent claim set, an absent \<open>objects\<close> array or an empty one, the builder
  returns no node and no edge, the component returns the placeholder, and the effect
  constructs no simulation, whether the surface is mounted or not (with the surface not
  mounted, as it is when the placeholder is shown, the effect returns at once).\<close>

theorem empty_claims_placeholder:
  assumes "claims \<in> {None, Some \<lparr> objects = None \<rparr>, Some \<lparr> objects = Some [] \<rparr>}"
  shows "buildGraphData claims = \<lparr> nodes = [], links = [] \<rparr>
         \<and> FraudNetworkWidget claims = Placeholder
         \<and> useEffect_body False claims = Inr None
         \<and> (\<forall>sim. useEffect_body svgRef_current claims \<noteq> Inr (Some sim))"
  using assms
  by (auto simp: buildGraphData_def FraudNetworkWidget_def no_claims_def useEffect_body_def)

theorem empty_claims_placeholder_witness:
  "claims_of [] \<in> {None, Some \<lparr> objects = None \<rparr>, Some \<lparr> objects = Some [] \<rparr>}
   \<and> buildGraphData (claims_of []) = \<lparr> nodes = [], links = [] \<rparr>
   \<and> FraudNetworkWidget (claims_of []) = Placeholder
   \<and> useEffect_body True (claims_of []) = Inr None"
proof -
  have h: "claims_of [] \<in> {None, Some \<lparr> objects = None \<rparr>, Some \<lparr> objects = Some [] \<rparr>}"
    by (simp add: claims_of_def)
  have "useEffect_body True (claims_of []) = Inr None"
    by (simp add: useEffect_body_def claims_of_def)
  with empty_claims_placeholder [OF h, of True] h show ?thesis by simp
qed

text \<open>C4: both endpoints of every edge the builder returns are identifiers of nodes it
  returns; and the link step leaves the edge list as it is for a record one of whose two
  node keys is missing from the node map.\<close>

theorem link_endpoints_exist:
  "(\<forall>l \<in> set (links (buildGraphData claims)).
      source l \<in> node_id ` set (nodes (buildGraphData claims))
      \<and> target l \<in> node_id ` set (nodes (buildGraphData claims)))
   \<and> (\<not> (Map_has (''claim-'' @ primaryKey c) m
          \<and> Map_has (''ph-'' @ policyholderId (properties c)) m)
      \<longrightarrow> add_link m ls c = ls)"
proof -
  have "\<forall>l \<in> set (links (buildGraphData claims)).
      source l \<in> node_id ` set (nodes (buildGraphData claims))
      \<and> target l \<in> node_id ` set (nodes (buildGraphData claims))"
    using buildGraphData_cases [of claims]
  proof
    assume "buildGraphData claims = \<lparr> nodes = [], links = [] \<rparr>"
    then show ?thesis by simp
  next
    assume "\<exists>objs. objs \<noteq> [] \<and> claims = claims_of objs"
    then obtain objs where "objs \<noteq> []" and "claims = claims_of objs" by blast
    then show ?thesis
      by (blast intro: link_endpoints_nonempty)
  qed
  then show ?thesis
    by (simp add: add_link_absent)
qed

theorem link_endpoints_exist_witness:
  "sample_link \<in> set (links (buildGraphData (claims_of sample_claims)))
   \<and> source sample_link \<in> node_id ` set (nodes (buildGraphData (claims_of sample_claims)))
   \<and> target sample_link \<in> node_id ` set (nodes (buildGraphData (claims_of sample_claims)))
   \<and> \<not> (Map_has (''claim-'' @ primaryKey (hd sample_claims)) ([] :: ClaimNode js_map)
        \<and> Map_has (''ph-'' @ policyholderId (properties (hd sample_claims))) ([] :: ClaimNode js_map))
   \<and> add_link [] [] (hd sample_claims) = []"
proof -
  have mem: "sample_link \<in> set (links (buildGraphData (claims_of sample_claims)))"
    by (simp add: links_eq sample_claims_def sample_link_def link_of_def mk_claim_def)
  have absent: "\<not> (Map_has (''claim-'' @ primaryKey (hd sample_claims)) ([] :: ClaimNode js_map)
        \<and> Map_has (''ph-'' @ policyholderId (properties (hd sample_claims))) ([] :: ClaimNode js_map))"
    by (simp add: Map_has_def)
  from link_endpoints_exist [of "claims_of sample_claims" "hd sample_claims" "[]" "[]"] mem absent
  show ?thesis by blast
qed

text \<open>C5: every edge the builder returns has kind \<open>claim-policyholder\<close>, none has kind
  \<open>policyholder-agent\<close>, and no edge has an agent node as an endpoint.\<close>

theorem only_claim_policyholder_links:
  "\<forall>l \<in> set (links (buildGraphData claims)).
     link_type l = ClaimPolicyholder \<and> link_type l \<noteq> PolicyholderAgent
     \<and> (\<forall>n \<in> set (nodes_of_kind Agent (buildGraphData claims)).
           source l \<noteq> node_id n \<and> target l \<noteq> node_id n)"
  using buildGraphData_cases [of claims]
proof
  assume "buildGraphData claims = \<lparr> nodes = [], links = [] \<rparr>"
  then show ?thesis by simp
next
  assume "\<exists>objs. objs \<noteq> [] \<and> claims = claims_of objs"
  then obtain objs where ne: "objs \<noteq> []" and c: "claims = claims_of objs" by blast
  show ?thesis
    unfolding c links_eq agent_nodes_nonempty [OF ne]
    by (auto simp: link_of_def agent_node_def)
qed

theorem only_claim_policyholder_links_witness:
  "sample_link \<in> set (links (buildGraphData (claims_of sample_claims)))
   \<and> agent_node ''AGENT_0'' \<in> set (nodes_of_kind Agent (buildGraphData (claims_of sample_claims)))
   \<and> link_type sample_link = ClaimPolicyholder
   \<and> link_type sample_link \<noteq> PolicyholderAgent
   \<and> source sample_link \<noteq> node_id (agent_node ''AGENT_0'')
   \<and> target sample_link \<noteq> node_id (agent_node ''AGENT_0'')"
proof -
  have ne: "sample_claims \<noteq> []" by (simp add: sample_claims_def)
  have l: "sample_link \<in> set (links (buildGraphData (claims_of sample_claims)))"
    by (simp add: links_eq sample_claims_def sample_link_def link_of_def mk_claim_def)
  have a: "agent_node ''AGENT_0''
           \<in> set (nodes_of_kind Agent (buildGraphData (claims_of sample_claims)))"
    by (simp add: agent_nodes_nonempty [OF ne])
  from only_claim_policyholder_links [of "claims_of sample_claims"] l a
  show ?thesis by blast
qed
text \<open>C6: on a claim node the colour is decided by strict comparisons of the anomaly score
  with 70 and 40: red (\<open>#ff4444\<close>) above 70, else amber (\<open>#ffaa00\<close>) above 40, else
  green (\<open>#88cc88\<close>); 75 is red, 50 amber, 10 green, exactly 70 amber and exactly 40
  green.\<close>

theorem nodeColor_claim_thresholds:
  "nodeColor (d\<lparr> node_type := Claim, node_anomalyScore := Some (Num s) \<rparr>)
     = (if s > 70 then ''#ff4444'' else if s > 40 then ''#ffaa00'' else ''#88cc88'')
   \<and> nodeColor (d\<lparr> node_type := Claim, node_anomalyScore := Some (Num 75) \<rparr>) = ''#ff4444''
   \<and> nodeColor (d\<lparr> node_type := Claim, node_anomalyScore := Some (Num 50) \<rparr>) = ''#ffaa00''
   \<and> nodeColor (d\<lparr> node_type := Claim, node_anomalyScore := Some (Num 10) \<rparr>) = ''#88cc88''
   \<and> nodeColor (d\<lparr> node_type := Claim, node_anomalyScore := Some (Num 70) \<rparr>) = ''#ffaa00''
   \<and> nodeColor (d\<lparr> node_type := Claim, node_anomalyScore := Some (Num 40) \<rparr>) = ''#88cc88''"
  by (simp add: nodeColor_def or_zero_def)

text \<open>C7: a click on a claim node calls the wired \<open>flagSuspicious\<close> once, with the node's
  primary key as \<open>claimId\<close>, and nothing else; a click on an agent node calls the wired
  \<open>investigateCluster\<close> once, with the node's agent id, and nothing else; a click on a
  policyholder node leaves the host as it is; so does a click on a claim node without
  \<open>flagSuspicious\<close> and a click on an agent node without \<open>investigateCluster\<close>.\<close>

theorem handleNodeClick_dispatch:
  "handleNodeClick (Some f) ic (d\<lparr> node_type := Claim \<rparr>) h
     = f (FlagPayload (node_primaryKey d)) h
   \<and> handleNodeClick fs (Some g) (d\<lparr> node_type := Agent \<rparr>) h
     = g (ClusterPayload (node_agentId d)) h
   \<and> handleNodeClick fs ic (d\<lparr> node_type := Policyholder \<rparr>) h = h
   \<and> handleNodeClick None ic (d\<lparr> node_type := Claim \<rparr>) h = h
   \<and> handleNodeClick fs None (d\<lparr> node_type := Agent \<rparr>) h = h"
  by (simp add: handleNodeClick_def)

text \<open>C8: the policyholder nodes are as many as the distinct policyholder ids among the
  first 200 records, one per id and with distinct node identifiers; each has the identifier
  \<open>"ph-" + policyholderId\<close>, the id as its display name and the risk label
  \<open>High Risk\<close>.\<close>

theorem policyholder_nodes:
  "length (nodes_of_kind Policyholder (buildGraphData (claims_of objs)))
     = card (phId_of ` set (take 200 objs))
   \<and> distinct (map node_id (nodes_of_kind Policyholder (buildGraphData (claims_of objs))))
   \<and> set (map node_primaryKey (nodes_of_kind Policyholder (buildGraphData (claims_of objs))))
     = phId_of ` set (take 200 objs)
   \<and> (\<forall>n \<in> set (nodes_of_kind Policyholder (buildGraphData (claims_of objs))).
         node_id n = ''ph-'' @ node_primaryKey n
         \<and> node_policyholderId n = Some (node_primaryKey n)
         \<and> node_policyholderName n = Some (node_primaryKey n)
         \<and> node_riskProfile n = Some ''High Risk'')"
proof -
  let ?ps = "new_Set (map phId_of (take 200 objs))"
  let ?pn = "nodes_of_kind Policyholder (buildGraphData (claims_of objs))"
  have pn: "?pn = map (snd \<circ> ph_entry) ?ps"
  proof (cases "objs = []")
    case True
    then show ?thesis by (simp add: nodes_of_kind_def nodes_empty new_Set_def)
  next
    case False
    then show ?thesis by (rule ph_nodes_nonempty)
  qed
  have "length ?ps = card (set ?ps)"
    using distinct_new_Set [of "map phId_of (take 200 objs)"] by (simp only: distinct_card)
  then have n: "length ?pn = card (phId_of ` set (take 200 objs))"
    by (simp add: pn set_new_Set)
  have "distinct (map (\<lambda>p. ''ph-'' @ p) ?ps)"
    using distinct_new_Set [of "map phId_of (take 200 objs)"]
    by (simp add: distinct_map inj_on_def)
  then have d: "distinct (map node_id ?pn)"
    by (simp only: pn map_node_id_ph_entries)
  have s: "set (map node_primaryKey ?pn) = phId_of ` set (take 200 objs)"
    by (simp add: pn set_new_Set ph_entry_def image_image)
  have a: "\<forall>n \<in> set ?pn. node_id n = ''ph-'' @ node_primaryKey n
         \<and> node_policyholderId n = Some (node_primaryKey n)
         \<and> node_policyholderName n = Some (node_primaryKey n)
         \<and> node_riskProfile n = Some ''High Risk''"
    unfolding pn by (auto simp: ph_entry_def)
  from n d s a show ?thesis by blast
qed

theorem policyholder_nodes_witness:
  "length (nodes_of_kind Policyholder (buildGraphData (claims_of sample_claims))) = 2
   \<and> card (phId_of ` set (take 200 sample_claims)) = 2
   \<and> snd (ph_entry ''P2'') \<in> set (nodes_of_kind Policyholder (buildGraphData (claims_of sample_claims)))
   \<and> node_id (snd (ph_entry ''P2'')) = ''ph-'' @ node_primaryKey (snd (ph_entry ''P2''))
   \<and> node_policyholderName (snd (ph_entry ''P2'')) = Some ''P2''
   \<and> node_riskProfile (snd (ph_entry ''P2'')) = Some ''High Risk''"
proof -
  have ne: "sample_claims \<noteq> []" by (simp add: sample_claims_def)
  have c: "card (phId_of ` set (take 200 sample_claims)) = 2"
    by (simp add: sample_claims_def mk_claim_def phId_of_def)
  have m: "snd (ph_entry ''P2'')
           \<in> set (nodes_of_kind Policyholder (buildGraphData (claims_of sample_claims)))"
    unfolding ph_nodes_nonempty [OF ne]
    by (simp add: set_new_Set sample_claims_def mk_claim_def phId_of_def)
  have k: "node_primaryKey (snd (ph_entry ''P2'')) = ''P2''"
    by (simp add: ph_entry_def)
  from policyholder_nodes [of sample_claims] c m k show ?thesis
    by (simp only:)
qed

text \<open>C10: the link step finds both node keys of every record among the first 200, so it
  appends one \<open>claim-policyholder\<close> edge per such record, in order, and the edge list
  has length \<open>min (length records) 200\<close>, also when records share a primary key.\<close>

theorem one_link_per_record:
  "links (buildGraphData (claims_of objs)) = map link_of (take 200 objs)
   \<and> length (links (buildGraphData (claims_of objs))) = min (length objs) 200
   \<and> (\<forall>c \<in> set (take 200 objs).
         Map_has (''claim-'' @ primaryKey c) (build_nodeMap objs)
         \<and> Map_has (''ph-'' @ policyholderId (properties c)) (build_nodeMap objs)
         \<and> add_link (build_nodeMap objs) ls c = ls @ [link_of c])"
proof -
  have l: "links (buildGraphData (claims_of objs)) = map link_of (take 200 objs)"
    by (rule links_eq)
  then have n: "length (links (buildGraphData (claims_of objs))) = min (length objs) 200"
    by simp
  have "\<forall>c \<in> set (take 200 objs).
         Map_has (''claim-'' @ primaryKey c) (build_nodeMap objs)
         \<and> Map_has (''ph-'' @ policyholderId (properties c)) (build_nodeMap objs)
         \<and> add_link (build_nodeMap objs) ls c = ls @ [link_of c]"
    by (blast intro: build_nodeMap_has add_link_present)
  with l n show ?thesis by blast
qed

theorem one_link_per_record_witness:
  "length (links (buildGraphData (claims_of duplicate_claims))) = 2
   \<and> length (nodes_of_kind Claim (buildGraphData (claims_of duplicate_claims))) = 1
   \<and> hd duplicate_claims \<in> set (take 200 duplicate_claims)
   \<and> Map_has (''ph-'' @ policyholderId (properties (hd duplicate_claims)))
       (build_nodeMap duplicate_claims)
   \<and> add_link (build_nodeMap duplicate_claims) [] (hd duplicate_claims)
     = [link_of (hd duplicate_claims)]"
proof -
  have m: "hd duplicate_claims \<in> set (take 200 duplicate_claims)"
    by (simp add: duplicate_claims_def)
  have k: "length (nodes_of_kind Claim (buildGraphData (claims_of duplicate_claims))) = 1"
    by (simp add: build_defs duplicate_claims_def)
  have two: "min (length duplicate_claims) 200 = 2"
    by (simp add: duplicate_claims_def)
  note t = one_link_per_record [of duplicate_claims "[]"]
  from t have "length (links (buildGraphData (claims_of duplicate_claims)))
                = min (length duplicate_claims) 200"
    by blast
  with two have n: "length (links (buildGraphData (claims_of duplicate_claims))) = 2"
    by (simp only:)
  from t m have "Map_has (''ph-'' @ policyholderId (properties (hd duplicate_claims)))
       (build_nodeMap duplicate_claims)
   \<and> add_link (build_nodeMap duplicate_claims) [] (hd duplicate_claims)
     = [] @ [link_of (hd duplicate_claims)]"
    by blast
  with n k m show ?thesis by simp
qed

text \<open>C9, as stated, fails in two ways. The radius is not strictly increasing: the amounts
  \<open>5000 / 2^200\<close> and \<open>5000 / 2^196\<close> are two different doubles, and both get the radius 3,
  since the scaled root is lost in the rounding of \<open>+ 3\<close>. And a negative amount, here
  \<open>-5000\<close>, gets \<open>NaN\<close>, which is neither below nor above any radius.\<close>

theorem nodeRadius_strict_counterexample:
  "(5000 / 2 ^ 200 :: real) < 5000 / 2 ^ 196
   \<and> nodeRadius (amount_node (Num (5000 / 2 ^ 200))) = Num 3
   \<and> nodeRadius (amount_node (Num (5000 / 2 ^ 196))) = Num 3
   \<and> \<not> gt (nodeRadius (amount_node (Num (5000 / 2 ^ 196))))
           (nodeRadius (amount_node (Num (5000 / 2 ^ 200))))
   \<and> nodeRadius (amount_node (Num (- 5000))) = NaN
   \<and> \<not> gt (nodeRadius (amount_node (Num 0))) (nodeRadius (amount_node (Num (- 5000))))"
proof -
  have a: "nodeRadius (amount_node (Num (5000 / 2 ^ 200))) = Num 3"
    using radius_tiny [of 100] by (simp add: nodeRadius_amount_node or_zero_def)
  have b: "nodeRadius (amount_node (Num (5000 / 2 ^ 196))) = Num 3"
    using radius_tiny [of 98] by (simp add: nodeRadius_amount_node or_zero_def)
  have c: "nodeRadius (amount_node (Num (- 5000))) = NaN"
    by (simp add: nodeRadius_amount_node or_zero_def radius_minus_5000)
  have d: "(5000 / 2 ^ 200 :: real) < 5000 / 2 ^ 196" by simp
  have e: "nodeRadius (amount_node (Num 0)) = Num 3"
    by (simp add: nodeRadius_amount_node or_zero_def radius_0)
  have f: "\<not> gt (Num 3) (Num 3)" "\<not> gt (Num 3) NaN" by simp_all
  from a b c d e f show ?thesis by (simp only:) blast
qed

text \<open>C9 (amended): on claim nodes with a non-negative amount the radius is the double
  \<open>Math.sqrt(amount / 5000) * 4 + 3\<close>. It grows with the square root of the amount: up to
  the amount \<open>2^900\<close> it is within the relative error \<open>2^-50\<close> of the exact
  \<open>sqrt (amount / 5000) * 4 + 3\<close>. It is non-decreasing in the amount, and strictly
  increasing between two amounts whose exact radii differ by the factor \<open>1 + 2^-48\<close> or
  more, so between any two amounts up to \<open>10^9\<close> that are at least \<open>0.01\<close> apart; it is
  not strictly increasing between amounts whose roundings merge (every amount from 0 to
  \<open>5000 / 2^196\<close> gets the radius 3). Every policyholder node has the radius 8 and every
  agent node 12; an absent amount, like \<open>NaN\<close> and 0, falls back to zero and gets the
  radius 3, never \<open>NaN\<close>; the negative amount \<open>-5000\<close> gets \<open>NaN\<close>.\<close>

theorem nodeRadius_growth:
  "(0 \<le> a \<and> a \<le> b \<longrightarrow>
      le (nodeRadius (d\<lparr> node_type := Claim, node_claimAmount := Some (Num a) \<rparr>))
         (nodeRadius (d\<lparr> node_type := Claim, node_claimAmount := Some (Num b) \<rparr>)))
   \<and> (0 \<le> a \<and> a \<le> 2 ^ 900 \<longrightarrow>
      close_to (nodeRadius (d\<lparr> node_type := Claim, node_claimAmount := Some (Num a) \<rparr>))
        (exact_radius a) (exact_radius a / 2 ^ 50))
   \<and> (0 \<le> a \<and> a \<le> 2 ^ 900 \<and> 0 \<le> b \<and> b \<le> 2 ^ 900
        \<and> exact_radius a * (1 + 1 / 2 ^ 48) \<le> exact_radius b \<longrightarrow>
      gt (nodeRadius (d\<lparr> node_type := Claim, node_claimAmount := Some (Num b) \<rparr>))
         (nodeRadius (d\<lparr> node_type := Claim, node_claimAmount := Some (Num a) \<rparr>)))
   \<and> (0 \<le> a \<and> a + 1 / 100 \<le> b \<and> b \<le> 10 ^ 9 \<longrightarrow>
      gt (nodeRadius (d\<lparr> node_type := Claim, node_claimAmount := Some (Num b) \<rparr>))
         (nodeRadius (d\<lparr> node_type := Claim, node_claimAmount := Some (Num a) \<rparr>)))
   \<and> (0 \<le> a \<and> a \<le> 5000 / 2 ^ 196 \<longrightarrow>
      nodeRadius (d\<lparr> node_type := Claim, node_claimAmount := Some (Num a) \<rparr>) = Num 3)
   \<and> nodeRadius (d\<lparr> node_type := Policyholder \<rparr>) = Num 8
   \<and> nodeRadius (d\<lparr> node_type := Agent \<rparr>) = Num 12
   \<and> nodeRadius (d\<lparr> node_type := Claim, node_claimAmount := None \<rparr>) = Num 3
   \<and> nodeRadius (d\<lparr> node_type := Claim, node_claimAmount := Some NaN \<rparr>) = Num 3
   \<and> nodeRadius (d\<lparr> node_type := Claim, node_claimAmount := Some (Num 0) \<rparr>) = Num 3
   \<and> nodeRadius (d\<lparr> node_type := Claim, node_claimAmount := Some (Num (- 5000)) \<rparr>) = NaN"
proof -
  have r: "nodeRadius (d\<lparr> node_type := Claim, node_claimAmount := Some (Num x) \<rparr>)
           = radius_of_amount (Num x)" for x
    by (simp add: nodeRadius_claim or_zero_def)
  have mono: "le (nodeRadius (d\<lparr> node_type := Claim, node_claimAmount := Some (Num a) \<rparr>))
                 (nodeRadius (d\<lparr> node_type := Claim, node_claimAmount := Some (Num b) \<rparr>))"
    if "0 \<le> a" and "a \<le> b"
    unfolding r using that by (intro radius_of_amount_mono) simp_all
  have close: "close_to (nodeRadius (d\<lparr> node_type := Claim, node_claimAmount := Some (Num a) \<rparr>))
        (exact_radius a) (exact_radius a / 2 ^ 50)"
    if "0 \<le> a" and "a \<le> 2 ^ 900"
    unfolding r using that by (rule radius_close)
  have sep: "gt (nodeRadius (d\<lparr> node_type := Claim, node_claimAmount := Some (Num b) \<rparr>))
         (nodeRadius (d\<lparr> node_type := Claim, node_claimAmount := Some (Num a) \<rparr>))"
    if "0 \<le> a" and "a \<le> 2 ^ 900" and "0 \<le> b" and "b \<le> 2 ^ 900"
      and "exact_radius a * (1 + 1 / 2 ^ 48) \<le> exact_radius b"
    unfolding r using that by (rule radius_strict_separated)
  have cents: "gt (nodeRadius (d\<lparr> node_type := Claim, node_claimAmount := Some (Num b) \<rparr>))
         (nodeRadius (d\<lparr> node_type := Claim, node_claimAmount := Some (Num a) \<rparr>))"
    if "0 \<le> a" and "a + 1 / 100 \<le> b" and "b \<le> 10 ^ 9"
    unfolding r using that by (rule radius_strict_cents)
  have flat: "nodeRadius (d\<lparr> node_type := Claim, node_claimAmount := Some (Num a) \<rparr>) = Num 3"
    if "0 \<le> a" and "a \<le> 5000 / 2 ^ 196"
    unfolding r using that by (rule radius_flat)
  have fixed: "nodeRadius (d\<lparr> node_type := Policyholder \<rparr>) = Num 8"
    "nodeRadius (d\<lparr> node_type := Agent \<rparr>) = Num 12"
    by (simp_all add: nodeRadius_def)
  have absent: "nodeRadius (d\<lparr> node_type := Claim, node_claimAmount := None \<rparr>) = Num 3"
    "nodeRadius (d\<lparr> node_type := Claim, node_claimAmount := Some NaN \<rparr>) = Num 3"
    by (simp_all add: nodeRadius_claim or_zero_def radius_0)
  have zero: "nodeRadius (d\<lparr> node_type := Claim, node_claimAmount := Some (Num 0) \<rparr>) = Num 3"
    unfolding r by (rule radius_0)
  have neg: "nodeRadius (d\<lparr> node_type := Claim, node_claimAmount := Some (Num (- 5000)) \<rparr>) = NaN"
    unfolding r by (rule radius_minus_5000)
  from mono close sep cents flat fixed absent zero neg show ?thesis by blast
qed

theorem nodeRadius_growth_witness:
  "(0::real) \<le> 5000 \<and> (5000::real) \<le> 20000
   \<and> le (nodeRadius (amount_node (Num 5000))) (nodeRadius (amount_node (Num 20000)))
   \<and> nodeRadius (amount_node (Num 5000)) = Num 7
   \<and> nodeRadius (amount_node (Num 20000)) = Num 11
   \<and> (5000::real) \<le> 2 ^ 900 \<and> (20000::real) \<le> 2 ^ 900
   \<and> exact_radius 5000 * (1 + 1 / 2 ^ 48) \<le> exact_radius 20000
   \<and> gt (nodeRadius (amount_node (Num 20000))) (nodeRadius (amount_node (Num 5000)))
   \<and> (1000::real) \<le> 2 ^ 900
   \<and> close_to (nodeRadius (amount_node (Num 1000))) (exact_radius 1000)
        (exact_radius 1000 / 2 ^ 50)
   \<and> (0::real) + 1 / 100 \<le> 1000 \<and> (1000::real) \<le> 10 ^ 9
   \<and> gt (nodeRadius (amount_node (Num 1000))) (nodeRadius (amount_node (Num 0)))
   \<and> nodeRadius (amount_node (Num 0)) = Num 3
   \<and> (0::real) \<le> 5000 / 2 ^ 200 \<and> (5000 / 2 ^ 200 :: real) \<le> 5000 / 2 ^ 196
   \<and> nodeRadius (amount_node (Num (5000 / 2 ^ 200))) = Num 3"
proof -
  have n: "amount_node (Num x)\<lparr> node_type := Claim, node_claimAmount := Some (Num y) \<rparr>
           = amount_node (Num y)" for x y
    by (simp add: amount_node_def claim_node_def)
  have h1: "(0::real) \<le> 5000" "(5000::real) \<le> 20000" "(5000::real) \<le> 2 ^ 900"
    "(0::real) \<le> 20000" "(20000::real) \<le> 2 ^ 900" by simp_all
  have "sqrt 4 = 2" by (rule real_sqrt_unique) simp_all
  then have e: "exact_radius 5000 = 7" "exact_radius 20000 = 11"
    by (simp_all add: exact_radius_def)
  have h2: "exact_radius 5000 * (1 + 1 / 2 ^ 48) \<le> exact_radius 20000"
    by (simp add: e)
  have h3: "(0::real) \<le> 1000" "(1000::real) \<le> 2 ^ 900" "(0::real) \<le> 0"
    "(0::real) + 1 / 100 \<le> 1000" "(1000::real) \<le> 10 ^ 9" by simp_all
  have h4: "(0::real) \<le> 5000 / 2 ^ 200" "(5000 / 2 ^ 200 :: real) \<le> 5000 / 2 ^ 196"
    by simp_all
  have v: "nodeRadius (amount_node (Num 5000)) = Num 7"
    "nodeRadius (amount_node (Num 20000)) = Num 11"
    "nodeRadius (amount_node (Num 0)) = Num 3"
    by (simp_all add: nodeRadius_amount_node or_zero_def radius_5000 radius_20000 radius_0)
  note t1 = nodeRadius_growth [of 5000 20000 "amount_node (Num 0)", unfolded n]
  note t2 = nodeRadius_growth [of 1000 0 "amount_node (Num 0)", unfolded n]
  note t3 = nodeRadius_growth [of 0 1000 "amount_node (Num 0)", unfolded n]
  note t4 = nodeRadius_growth [of "5000 / 2 ^ 200" 0 "amount_node (Num 0)", unfolded n]
  from t1 h1 have a: "le (nodeRadius (amount_node (Num 5000))) (nodeRadius (amount_node (Num 20000)))"
    by blast
  from t1 h1 h2
  have b: "gt (nodeRadius (amount_node (Num 20000))) (nodeRadius (amount_node (Num 5000)))"
    by blast
  from t2 h3 have c: "close_to (nodeRadius (amount_node (Num 1000))) (exact_radius 1000)
        (exact_radius 1000 / 2 ^ 50)"
    by blast
  from t3 h3 have d: "gt (nodeRadius (amount_node (Num 1000))) (nodeRadius (amount_node (Num 0)))"
    by blast
  from t4 h4 have f: "nodeRadius (amount_node (Num (5000 / 2 ^ 200))) = Num 3"
    by blast
  from h1 h2 h3 h4 v a b c d f show ?thesis by blast
qed

end
